theory Spec2Isabelle
  imports Main "HOL-Library.Multiset"
begin

section \<open>Shared data model (package models)\<close>

text \<open>
  The structs of package \<open>models\<close> that the reporter agent decodes from the message bus.
  Go's \<open>int\<close> is modelled as \<open>int\<close>: the only arithmetic on these values is counting
  list elements, which cannot reach 2^63. \<open>ServiceInfo.Confidence\<close> (a float64) is
  carried by the struct but never read by any agent and is left out.
\<close>

record models_ScanResult =
  ID :: string
  ScanID :: string
  Target :: string
  Port :: int
  Protocol :: string
  State :: string
  Error :: string

record models_ServiceInfo =
  svc_ID :: string
  svc_ScanID :: string
  svc_Target :: string
  svc_Port :: int
  ServiceName :: string
  svc_Version :: string
  svc_Banner :: string

record ScanStatistics =
  TotalPorts :: int
  OpenPorts :: int
  ClosedPorts :: int

section \<open>Messages on the bus\<close>

text \<open>
  A message payload after JSON parsing: either not acceptable to \<open>json.Unmarshal\<close> for a
  struct target (\<open>Malformed\<close>: invalid syntax or not an object), or an object given as
  its list of members in order. Strings are the decoded texts. Member names are compared
  exactly here (Go also accepts a name that differs from the tag in letter case only).
\<close>

datatype json_value =
  JString string | JInt int | JFrac | JBool bool | JNull | JComposite

datatype wire = Malformed | JObject "(string \<times> json_value) list"

definition as_string :: "json_value \<Rightarrow> string \<Rightarrow> string option" where
  "as_string v old = (case v of JString s \<Rightarrow> Some s | JNull \<Rightarrow> Some old | _ \<Rightarrow> None)"

definition as_int :: "json_value \<Rightarrow> int \<Rightarrow> int option" where
  "as_int v old =
     (case v of
        JInt n \<Rightarrow> if - (2 ^ 63) \<le> n \<and> n < 2 ^ 63 then Some n else None
      | JNull \<Rightarrow> Some old
      | _ \<Rightarrow> None)"

definition as_float :: "json_value \<Rightarrow> bool" where
  "as_float v = (case v of JInt n \<Rightarrow> True | JFrac \<Rightarrow> True | JNull \<Rightarrow> True | _ \<Rightarrow> False)"

text \<open>One member of the object stored into the struct under construction; a member no
  field is tagged with is skipped, a value of the wrong type is an error.\<close>

definition set_ScanResult_field ::
  "string \<times> json_value \<Rightarrow> models_ScanResult \<Rightarrow> models_ScanResult option" where
  "set_ScanResult_field kv r =
     (let k = fst kv; v = snd kv in
      if k = ''id'' then map_option (\<lambda>s. r\<lparr>ID := s\<rparr>) (as_string v (ID r))
      else if k = ''scan_id'' then map_option (\<lambda>s. r\<lparr>ScanID := s\<rparr>) (as_string v (ScanID r))
      else if k = ''target'' then map_option (\<lambda>s. r\<lparr>Target := s\<rparr>) (as_string v (Target r))
      else if k = ''port'' then map_option (\<lambda>n. r\<lparr>Port := n\<rparr>) (as_int v (Port r))
      else if k = ''protocol'' then map_option (\<lambda>s. r\<lparr>Protocol := s\<rparr>) (as_string v (Protocol r))
      else if k = ''state'' then map_option (\<lambda>s. r\<lparr>State := s\<rparr>) (as_string v (State r))
      else if k = ''error'' then map_option (\<lambda>s. r\<lparr>Error := s\<rparr>) (as_string v (Error r))
      else Some r)"

fun decode_members :: "('kv \<Rightarrow> 'r \<Rightarrow> 'r option) \<Rightarrow> 'kv list \<Rightarrow> 'r \<Rightarrow> 'r option" where
  "decode_members f [] r = Some r"
| "decode_members f (kv # kvs) r =
     (case f kv r of None \<Rightarrow> None | Some r' \<Rightarrow> decode_members f kvs r')"

definition zero_ScanResult :: models_ScanResult where
  "zero_ScanResult =
     \<lparr>ID = [], ScanID = [], Target = [], Port = 0, Protocol = [], State = [], Error = []\<rparr>"

definition unmarshal_ScanResult :: "wire \<Rightarrow> models_ScanResult option" where
  "unmarshal_ScanResult msg =
     (case msg of
        Malformed \<Rightarrow> None
      | JObject kvs \<Rightarrow> decode_members set_ScanResult_field kvs zero_ScanResult)"

definition set_ServiceInfo_field ::
  "string \<times> json_value \<Rightarrow> models_ServiceInfo \<Rightarrow> models_ServiceInfo option" where
  "set_ServiceInfo_field kv s =
     (let k = fst kv; v = snd kv in
      if k = ''id'' then map_option (\<lambda>x. s\<lparr>svc_ID := x\<rparr>) (as_string v (svc_ID s))
      else if k = ''scan_id'' then map_option (\<lambda>x. s\<lparr>svc_ScanID := x\<rparr>) (as_string v (svc_ScanID s))
      else if k = ''target'' then map_option (\<lambda>x. s\<lparr>svc_Target := x\<rparr>) (as_string v (svc_Target s))
      else if k = ''port'' then map_option (\<lambda>n. s\<lparr>svc_Port := n\<rparr>) (as_int v (svc_Port s))
      else if k = ''service'' then map_option (\<lambda>x. s\<lparr>ServiceName := x\<rparr>) (as_string v (ServiceName s))
      else if k = ''version'' then map_option (\<lambda>x. s\<lparr>svc_Version := x\<rparr>) (as_string v (svc_Version s))
      else if k = ''banner'' then map_option (\<lambda>x. s\<lparr>svc_Banner := x\<rparr>) (as_string v (svc_Banner s))
      else if k = ''confidence'' then (if as_float v then Some s else None)
      else Some s)"

definition zero_ServiceInfo :: models_ServiceInfo where
  "zero_ServiceInfo =
     \<lparr>svc_ID = [], svc_ScanID = [], svc_Target = [], svc_Port = 0, ServiceName = [],
      svc_Version = [], svc_Banner = []\<rparr>"

definition unmarshal_ServiceInfo :: "wire \<Rightarrow> models_ServiceInfo option" where
  "unmarshal_ServiceInfo msg =
     (case msg of
        Malformed \<Rightarrow> None
      | JObject kvs \<Rightarrow> decode_members set_ServiceInfo_field kvs zero_ServiceInfo)"

section \<open>Reporter agent: report synthesis\<close>

record OpenPortInfo =
  op_Port :: int
  op_Service :: string
  op_Version :: string

record Report =
  rep_ScanID :: string
  rep_Target :: string
  rep_Timestamp :: int
  rep_DurationMs :: int
  rep_OpenPorts :: "OpenPortInfo list"
  rep_Statistics :: ScanStatistics

text \<open>
  An aggregate. Its field \<open>timer\<close> is a pointer to a \<open>time.Timer\<close>; the timer objects
  are kept in a store of their own (see \<open>reporter\<close> below), the timer of the aggregate at
  address \<open>a\<close> being the timer at address \<open>a\<close>.
\<close>

record ScanAggregator =
  scanID :: string
  target :: string
  results :: "models_ScanResult list"
  services :: "models_ServiceInfo list"
  startTime :: int
  resultCount :: int

definition resultTimeout :: int where
  "resultTimeout = 30 * 1000"

definition maxResultsWait :: int where
  "maxResultsWait = 20"

text \<open>The loop \<open>for _, service := range aggregator.services\<close>: a later record for a port
  overwrites an earlier one.\<close>

fun build_serviceMap ::
  "(int \<rightharpoonup> models_ServiceInfo) \<Rightarrow> models_ServiceInfo list \<Rightarrow> (int \<rightharpoonup> models_ServiceInfo)" where
  "build_serviceMap m [] = m"
| "build_serviceMap m (s # ss) = build_serviceMap (m(svc_Port s \<mapsto> s)) ss"

definition portInfo_of :: "(int \<rightharpoonup> models_ServiceInfo) \<Rightarrow> models_ScanResult \<Rightarrow> OpenPortInfo" where
  "portInfo_of serviceMap result =
     (case serviceMap (Port result) of
        Some service \<Rightarrow>
          \<lparr>op_Port = Port result, op_Service = ServiceName service, op_Version = svc_Version service\<rparr>
      | None \<Rightarrow> \<lparr>op_Port = Port result, op_Service = [], op_Version = []\<rparr>)"

text \<open>The statistics loop of \<open>generateReport\<close>, with its three accumulators
  \<open>openCount\<close>, \<open>closedCount\<close> and \<open>openPorts\<close>.\<close>

fun count_results ::
  "(int \<rightharpoonup> models_ServiceInfo) \<Rightarrow> models_ScanResult list \<Rightarrow> int \<times> int \<times> OpenPortInfo list
     \<Rightarrow> int \<times> int \<times> OpenPortInfo list" where
  "count_results serviceMap [] acc = acc"
| "count_results serviceMap (result # rest) (openCount, closedCount, openPorts) =
     (if State result = ''open'' then
        count_results serviceMap rest
          (openCount + 1, closedCount, openPorts @ [portInfo_of serviceMap result])
      else if State result = ''closed'' then
        count_results serviceMap rest (openCount, closedCount + 1, openPorts)
      else count_results serviceMap rest (openCount, closedCount, openPorts))"

text \<open>\<open>generateReport\<close> up to the hand-off to \<open>saveReport\<close>; \<open>now\<close> is the clock reading.
  What follows in the source (marshalling, the two database statements) only logs on
  failure and changes nothing in memory.\<close>

definition generateReport :: "int \<Rightarrow> ScanAggregator \<Rightarrow> Report" where
  "generateReport now aggregator =
     (let duration = now - startTime aggregator;
          serviceMap = build_serviceMap Map.empty (services aggregator);
          (openCount, closedCount, openPorts) =
             count_results serviceMap (results aggregator) (0, 0, [])
      in \<lparr>rep_ScanID = scanID aggregator,
          rep_Target = target aggregator,
          rep_Timestamp = now,
          rep_DurationMs = duration,
          rep_OpenPorts = openPorts,
          rep_Statistics =
            \<lparr>TotalPorts = int (length (results aggregator)),
             OpenPorts = openCount,
             ClosedPorts = closedCount\<rparr>\<rparr>)"

section \<open>Reporter agent: the aggregate registry as a transition system\<close>

text \<open>
  A timer created by \<open>time.AfterFunc\<close>: the scan id its callback closure captured
  (\<open>result.ScanID\<close> of the message that created the aggregate), and its state. Once the
  runtime has fired it, the state follows the callback goroutine: waiting for the
  registry lock (\<open>CB_waiting\<close>), holding an aggregate it removed and has yet to report
  (\<open>CB_report\<close> with the aggregate's address), finished (\<open>CB_done\<close>).
\<close>

datatype callback_pc = CB_waiting | CB_report nat | CB_done

datatype timer_state = Armed int | Stopped | Callback callback_pc

record Timer =
  cb_scanID :: string
  tstate :: timer_state

text \<open>
  The agent's shared memory and its goroutines. \<open>scanAggregators\<close> is the registry map
  of pointers; \<open>heap\<close> holds the aggregates and \<open>timers\<close> their timers, an address being
  an index. The NATS client runs the callback of one subscription sequentially, so there
  is at most one \<open>handleScanResult\<close> and one \<open>handleServiceDetected\<close> in progress; their
  program counters are \<open>result_handler\<close> and \<open>service_handler\<close>. Timer callbacks run in
  goroutines of their own, one per timer. \<open>saved\<close> logs every report handed to
  \<open>saveReport\<close>, with the address of the aggregate it was built from. \<open>clock\<close> is the
  time in milliseconds.

  Every step is one critical section of the source (or one action outside any lock):
  the code between \<open>Lock\<close> and \<open>Unlock\<close> of a mutex runs without waiting for anything
  else, so it is atomic here.

  \<open>shut_down\<close> is the program counter of \<open>Start\<close>: set once the context was cancelled
  and the shutdown sequence has run. \<open>Unsubscribe\<close> stops the delivery of further messages,
  but a handler that was already invoked goes on, and so do the timer callbacks, until the
  process exits. The transition system does not disable the delivery steps after the
  shutdown: it has every run of the agent, and some more.
\<close>

datatype result_pc =
  R_idle | R_append nat models_ScanResult | R_check int models_ScanResult | R_report nat

datatype service_pc = S_idle | S_append nat models_ServiceInfo

record reporter =
  scanAggregators :: "string \<rightharpoonup> nat"
  heap :: "ScanAggregator list"
  timers :: "Timer list"
  result_handler :: result_pc
  service_handler :: service_pc
  saved :: "(nat \<times> Report) list"
  clock :: int
  shut_down :: bool

datatype label =
    Tick nat
  | ScanResultMsg wire
  | Result_Append
  | Result_Check
  | Result_Report
  | Timer_Fire nat
  | Timer_Check nat
  | Timer_Report nat
  | ServiceMsg wire
  | Service_Append
  | Shutdown "nat list"

definition init :: reporter where
  "init = \<lparr>scanAggregators = Map.empty, heap = [], timers = [], result_handler = R_idle,
           service_handler = S_idle, saved = [], clock = 0, shut_down = False\<rparr>"

text \<open>\<open>timer.Stop()\<close>: disarms a timer that has not fired; no effect otherwise.\<close>

definition stop_timer :: "Timer \<Rightarrow> Timer" where
  "stop_timer t = (case tstate t of Armed expiry \<Rightarrow> t\<lparr>tstate := Stopped\<rparr> | _ \<Rightarrow> t)"

text \<open>\<open>handleScanResult\<close>, first critical section (registry lock): decode, look the
  aggregate up, create it and arm its timer when absent.\<close>

definition scan_result_msg :: "wire \<Rightarrow> reporter \<Rightarrow> reporter option" where
  "scan_result_msg msg st =
     (if result_handler st \<noteq> R_idle then None
      else case unmarshal_ScanResult msg of
        None \<Rightarrow> Some st
      | Some result \<Rightarrow>
          (case scanAggregators st (ScanID result) of
             Some aggregator \<Rightarrow> Some (st\<lparr>result_handler := R_append aggregator result\<rparr>)
           | None \<Rightarrow>
               let aggregator = length (heap st) in
               Some (st\<lparr>heap := heap st @
                          [\<lparr>scanID = ScanID result, target = Target result, results = [],
                            services = [], startTime = clock st, resultCount = 0\<rparr>],
                        timers := timers st @
                          [\<lparr>cb_scanID = ScanID result,
                            tstate = Armed (clock st + resultTimeout)\<rparr>],
                        scanAggregators := (scanAggregators st)(ScanID result \<mapsto> aggregator),
                        result_handler := R_append aggregator result\<rparr>)))"

text \<open>Second critical section (aggregate lock): append the result, bump the count.\<close>

definition result_append :: "reporter \<Rightarrow> reporter option" where
  "result_append st =
     (case result_handler st of
        R_append aggregator result \<Rightarrow>
          let g = heap st ! aggregator;
              g' = g\<lparr>results := results g @ [result], resultCount := resultCount g + 1\<rparr>
          in Some (st\<lparr>heap := (heap st)[aggregator := g'],
                      result_handler := R_check (resultCount g') result\<rparr>)
      | _ \<Rightarrow> None)"

text \<open>Third critical section (registry lock), entered only when the count has reached
  \<open>maxResultsWait\<close>: stop the timer of the registered aggregate and remove it.\<close>

definition result_check :: "reporter \<Rightarrow> reporter option" where
  "result_check st =
     (case result_handler st of
        R_check cnt result \<Rightarrow>
          if cnt \<ge> maxResultsWait then
            (case scanAggregators st (ScanID result) of
               Some agg \<Rightarrow>
                 Some (st\<lparr>timers := (timers st)[agg := stop_timer (timers st ! agg)],
                          scanAggregators := (scanAggregators st)(ScanID result := None),
                          result_handler := R_report agg\<rparr>)
             | None \<Rightarrow> Some (st\<lparr>result_handler := R_idle\<rparr>))
          else Some (st\<lparr>result_handler := R_idle\<rparr>)
      | _ \<Rightarrow> None)"

definition result_report :: "reporter \<Rightarrow> reporter option" where
  "result_report st =
     (case result_handler st of
        R_report agg \<Rightarrow>
          Some (st\<lparr>saved := saved st @ [(agg, generateReport (clock st) (heap st ! agg))],
                   result_handler := R_idle\<rparr>)
      | _ \<Rightarrow> None)"

text \<open>The runtime fires timer \<open>a\<close> once its expiry has passed and starts the callback
  goroutine.\<close>

definition timer_fire :: "nat \<Rightarrow> reporter \<Rightarrow> reporter option" where
  "timer_fire a st =
     (if a < length (timers st) then
        (case tstate (timers st ! a) of
           Armed expiry \<Rightarrow>
             if expiry \<le> clock st
             then Some (st\<lparr>timers := (timers st)[a := (timers st ! a)\<lparr>tstate := Callback CB_waiting\<rparr>]\<rparr>)
             else None
         | _ \<Rightarrow> None)
      else None)"

text \<open>The callback's critical section (registry lock): look up the scan id it was created
  for and remove the entry when there is one.\<close>

definition timer_check :: "nat \<Rightarrow> reporter \<Rightarrow> reporter option" where
  "timer_check a st =
     (if a < length (timers st) \<and> tstate (timers st ! a) = Callback CB_waiting then
        (case scanAggregators st (cb_scanID (timers st ! a)) of
           Some agg \<Rightarrow>
             Some (st\<lparr>timers := (timers st)[a := (timers st ! a)\<lparr>tstate := Callback (CB_report agg)\<rparr>],
                      scanAggregators := (scanAggregators st)(cb_scanID (timers st ! a) := None)\<rparr>)
         | None \<Rightarrow>
             Some (st\<lparr>timers := (timers st)[a := (timers st ! a)\<lparr>tstate := Callback CB_done\<rparr>]\<rparr>))
      else None)"

definition timer_report :: "nat \<Rightarrow> reporter \<Rightarrow> reporter option" where
  "timer_report a st =
     (if a < length (timers st) then
        (case tstate (timers st ! a) of
           Callback (CB_report agg) \<Rightarrow>
             Some (st\<lparr>saved := saved st @ [(agg, generateReport (clock st) (heap st ! agg))],
                      timers := (timers st)[a := (timers st ! a)\<lparr>tstate := Callback CB_done\<rparr>]\<rparr>)
         | _ \<Rightarrow> None)
      else None)"

text \<open>\<open>handleServiceDetected\<close>: the lookup under the read lock, then the append under the
  aggregate lock.\<close>

definition service_msg :: "wire \<Rightarrow> reporter \<Rightarrow> reporter option" where
  "service_msg msg st =
     (if service_handler st \<noteq> S_idle then None
      else case unmarshal_ServiceInfo msg of
        None \<Rightarrow> Some st
      | Some service \<Rightarrow>
          (case scanAggregators st (svc_ScanID service) of
             Some aggregator \<Rightarrow> Some (st\<lparr>service_handler := S_append aggregator service\<rparr>)
           | None \<Rightarrow> Some st))"

definition service_append :: "reporter \<Rightarrow> reporter option" where
  "service_append st =
     (case service_handler st of
        S_append aggregator service \<Rightarrow>
          let g = heap st ! aggregator in
          Some (st\<lparr>heap := (heap st)[aggregator := g\<lparr>services := services g @ [service]\<rparr>],
                   service_handler := S_idle\<rparr>)
      | _ \<Rightarrow> None)"

text \<open>
  The shutdown sequence of \<open>Start\<close>, after the two \<open>Unsubscribe\<close> calls: with the registry
  lock held, \<open>for scanID, aggregator := range ra.scanAggregators\<close> stops the timer of every
  registered aggregate and reports it; nothing is deleted from the registry. The aggregate
  at address \<open>a\<close> is \<^emph>\<open>registered\<close> when the registry has \<open>a\<close> under the scan id of that
  aggregate (in every reachable state these are all the entries of the registry, lemma
  \<open>is_registered_ran\<close> below). The order in which Go ranges over a map is not fixed: the
  label of the step carries it. The loop holds the registry lock throughout, so it is one
  step; the clock is read once for the whole loop.
\<close>

definition is_registered :: "reporter \<Rightarrow> nat \<Rightarrow> bool" where
  "is_registered st a \<longleftrightarrow>
     a < length (heap st) \<and> scanAggregators st (scanID (heap st ! a)) = Some a"

fun shutdown_loop :: "nat list \<Rightarrow> reporter \<Rightarrow> reporter" where
  "shutdown_loop [] st = st"
| "shutdown_loop (aggregator # rest) st =
     shutdown_loop rest
       (st\<lparr>timers := (timers st)[aggregator := stop_timer (timers st ! aggregator)],
           saved := saved st @ [(aggregator, generateReport (clock st) (heap st ! aggregator))]\<rparr>)"

definition shutdown :: "nat list \<Rightarrow> reporter \<Rightarrow> reporter option" where
  "shutdown order st =
     (if \<not> shut_down st \<and> distinct order
         \<and> set order = set (filter (is_registered st) [0..<length (heap st)])
      then Some ((shutdown_loop order st)\<lparr>shut_down := True\<rparr>)
      else None)"

fun step :: "label \<Rightarrow> reporter \<Rightarrow> reporter option" where
  "step (Tick d) st = Some (st\<lparr>clock := clock st + int d\<rparr>)"
| "step (ScanResultMsg msg) st = scan_result_msg msg st"
| "step Result_Append st = result_append st"
| "step Result_Check st = result_check st"
| "step Result_Report st = result_report st"
| "step (Timer_Fire a) st = timer_fire a st"
| "step (Timer_Check a) st = timer_check a st"
| "step (Timer_Report a) st = timer_report a st"
| "step (ServiceMsg msg) st = service_msg msg st"
| "step Service_Append st = service_append st"
| "step (Shutdown order) st = shutdown order st"

text \<open>A run under a schedule; \<open>None\<close> when the schedule asks for a step that is not
  enabled.\<close>

fun run :: "label list \<Rightarrow> reporter \<Rightarrow> reporter option" where
  "run [] st = Some st"
| "run (l # ls) st = (case step l st of None \<Rightarrow> None | Some st' \<Rightarrow> run ls st')"

definition reachable :: "reporter \<Rightarrow> bool" where
  "reachable st \<longleftrightarrow> (\<exists>ls. run ls init = Some st)"

section \<open>Scanner agent\<close>

text \<open>
  A Go \<open>error\<close> value, as far as the agents look at it: whether it is \<open>io.EOF\<close>, whether
  it is a \<open>net.Error\<close> and what its \<open>Timeout()\<close> says, and its text.
\<close>

datatype go_error = EOF | NetError bool string | OtherError string

fun error_text :: "go_error \<Rightarrow> string" where
  "error_text EOF = ''EOF''"
| "error_text (NetError t s) = s"
| "error_text (OtherError s) = s"

text \<open>\<open>netErr, ok := err.(net.Error); ok && netErr.Timeout()\<close>\<close>

fun is_net_timeout :: "go_error \<Rightarrow> bool" where
  "is_net_timeout (NetError t s) = t"
| "is_net_timeout _ = False"

text \<open>The scanner's own result struct (not the one of package \<open>models\<close>).\<close>

record scanner_ScanResult =
  sr_ID :: string
  sr_Target :: string
  sr_Port :: int
  IsOpen :: bool
  sr_Error :: string

definition maxWorkers :: nat where
  "maxWorkers = 10"

definition portTimeout :: int where
  "portTimeout = 1 * 1000"

definition topPorts :: "int list" where
  "topPorts = [21, 22, 23, 25, 80, 110, 443, 445, 3306, 3389, 5432, 6379, 8080, 8443, 27017]"

text \<open>What a probe does on the network: the dial (target, port, deadline in milliseconds)
  and, on an established connection, the close.\<close>

datatype net_action = Dial string int int | Close string int

text \<open>\<open>scanPort\<close>; its last argument is what \<open>net.DialTimeout\<close> returned (\<open>None\<close>: a
  connection). It returns the result and the network actions performed.\<close>

definition scanPort ::
  "string \<Rightarrow> string \<Rightarrow> int \<Rightarrow> go_error option \<Rightarrow> scanner_ScanResult \<times> net_action list" where
  "scanPort scan_id tgt port dialed =
     (let result = \<lparr>sr_ID = scan_id, sr_Target = tgt, sr_Port = port, IsOpen = False,
                     sr_Error = []\<rparr>
      in case dialed of
           Some err \<Rightarrow>
             (if is_net_timeout err then result\<lparr>sr_Error := ''timeout''\<rparr>
              else result\<lparr>sr_Error := ''connection_refused''\<rparr>,
              [Dial tgt port portTimeout])
         | None \<Rightarrow>
             (result\<lparr>IsOpen := True\<rparr>, [Dial tgt port portTimeout, Close tgt port]))"

text \<open>\<open>json.Marshal(result)\<close> in \<open>publishResult\<close>: one member per field under its tag,
  the error left out when empty.\<close>

definition marshal_ScanResult :: "scanner_ScanResult \<Rightarrow> wire" where
  "marshal_ScanResult result =
     JObject ([(''id'', JString (sr_ID result)), (''target'', JString (sr_Target result)),
               (''port'', JInt (sr_Port result)), (''is_open'', JBool (IsOpen result))]
              @ (if sr_Error result = [] then [] else [(''error'', JString (sr_Error result))]))"

text \<open>\<open>handleScanRequest\<close>: the port list handed to \<open>scanPorts\<close>.\<close>

definition handleScanRequest_ports :: "int list \<Rightarrow> int list" where
  "handleScanRequest_ports ports = (if length ports = 0 then topPorts else ports)"

subsection \<open>\<open>scanPorts\<close> as a transition system\<close>

text \<open>
  One goroutine per port; its program counter: before \<open>sem <- struct{}{}\<close> (\<open>Waiting\<close>),
  inside \<open>scanPort\<close> (\<open>Dialing\<close>), holding the result before \<open>results <- result\<close>
  (\<open>HasResult\<close>), before the deferred \<open><-sem\<close> and \<open>wg.Done()\<close> (\<open>Releasing\<close>), gone
  (\<open>Done\<close>). \<open>sem\<close> is the number of elements in the semaphore channel, whose capacity is
  \<open>maxWorkers\<close>; \<open>results_chan\<close> is the buffer of the results channel, whose capacity is
  the number of ports. \<open>closed\<close> is set by the goroutine that closes the results channel
  after \<open>wg.Wait()\<close>; \<open>published\<close> lists what the receiving loop handed to
  \<open>publishResult\<close>; \<open>completed\<close> is set when that loop has ended. A goroutine the spawning
  loop has not started yet behaves as one that is \<open>Waiting\<close>.
\<close>

datatype task_pc = Waiting | Dialing | HasResult scanner_ScanResult | Releasing | Done

record scan_state =
  tasks :: "(int \<times> task_pc) list"
  sem :: nat
  results_chan :: "scanner_ScanResult list"
  closed :: bool
  published :: "scanner_ScanResult list"
  completed :: bool

datatype scan_label =
    Acquire nat
  | Probe nat "go_error option"
  | Send nat
  | Release nat
  | Close_results
  | Publish
  | Finish

definition scanPorts_init :: "int list \<Rightarrow> scan_state" where
  "scanPorts_init ports =
     \<lparr>tasks = map (\<lambda>p. (p, Waiting)) ports, sem = 0, results_chan = [], closed = False,
      published = [], completed = False\<rparr>"

fun scan_step :: "string \<Rightarrow> string \<Rightarrow> scan_label \<Rightarrow> scan_state \<Rightarrow> scan_state option" where
  "scan_step scan_id tgt (Acquire i) st =
     (if i < length (tasks st) \<and> snd (tasks st ! i) = Waiting \<and> sem st < maxWorkers
      then Some (st\<lparr>tasks := (tasks st)[i := (fst (tasks st ! i), Dialing)], sem := sem st + 1\<rparr>)
      else None)"
| "scan_step scan_id tgt (Probe i dialed) st =
     (if i < length (tasks st) \<and> snd (tasks st ! i) = Dialing
      then Some (st\<lparr>tasks := (tasks st)[i := (fst (tasks st ! i),
                     HasResult (fst (scanPort scan_id tgt (fst (tasks st ! i)) dialed)))]\<rparr>)
      else None)"
| "scan_step scan_id tgt (Send i) st =
     (if i < length (tasks st) \<and> length (results_chan st) < length (tasks st) then
        (case snd (tasks st ! i) of
           HasResult result \<Rightarrow>
             Some (st\<lparr>tasks := (tasks st)[i := (fst (tasks st ! i), Releasing)],
                      results_chan := results_chan st @ [result]\<rparr>)
         | _ \<Rightarrow> None)
      else None)"
| "scan_step scan_id tgt (Release i) st =
     (if i < length (tasks st) \<and> snd (tasks st ! i) = Releasing
      then Some (st\<lparr>tasks := (tasks st)[i := (fst (tasks st ! i), Done)], sem := sem st - 1\<rparr>)
      else None)"
| "scan_step scan_id tgt Close_results st =
     (if \<not> closed st \<and> list_all (\<lambda>t. snd t = Done) (tasks st)
      then Some (st\<lparr>closed := True\<rparr>) else None)"
| "scan_step scan_id tgt Publish st =
     (case results_chan st of
        [] \<Rightarrow> None
      | result # rest \<Rightarrow>
          if completed st then None
          else Some (st\<lparr>results_chan := rest, published := published st @ [result]\<rparr>))"
| "scan_step scan_id tgt Finish st =
     (if closed st \<and> results_chan st = [] \<and> \<not> completed st
      then Some (st\<lparr>completed := True\<rparr>) else None)"

fun scan_run :: "string \<Rightarrow> string \<Rightarrow> scan_label list \<Rightarrow> scan_state \<Rightarrow> scan_state option" where
  "scan_run scan_id tgt [] st = Some st"
| "scan_run scan_id tgt (l # ls) st =
     (case scan_step scan_id tgt l st of
        None \<Rightarrow> None
      | Some st' \<Rightarrow> scan_run scan_id tgt ls st')"

text \<open>The states \<open>scanPorts(scanID, target, ports)\<close> can be in.\<close>

definition scan_reachable :: "string \<Rightarrow> string \<Rightarrow> int list \<Rightarrow> scan_state \<Rightarrow> bool" where
  "scan_reachable scan_id tgt ports st \<longleftrightarrow>
     (\<exists>ls. scan_run scan_id tgt ls (scanPorts_init ports) = Some st)"

section \<open>Analyzer agent (service detector)\<close>

subsection \<open>The string functions of package \<open>strings\<close> the detector uses\<close>

text \<open>
  A Go string is a sequence of bytes, here a list of 8-bit characters. Separators are
  single characters in every call of the source. \<open>TrimSpace\<close> and \<open>ToLower\<close> are modelled
  on ASCII; the source's versions also treat the non-ASCII white space and letters of
  Unicode.
\<close>

definition HasPrefix :: "string \<Rightarrow> string \<Rightarrow> bool" where
  "HasPrefix s pre \<longleftrightarrow> take (length pre) s = pre"

fun Contains :: "string \<Rightarrow> string \<Rightarrow> bool" where
  "Contains [] sub = (sub = [])"
| "Contains (c # cs) sub = (HasPrefix (c # cs) sub \<or> Contains cs sub)"

text \<open>\<open>strings.Split\<close> as the library computes it: cut at each occurrence of the separator
  in turn, the rest being the last piece.\<close>

function Split :: "string \<Rightarrow> char \<Rightarrow> string list" where
  "Split s sep =
     (if sep \<in> set s
      then takeWhile (\<lambda>c. c \<noteq> sep) s # Split (tl (dropWhile (\<lambda>c. c \<noteq> sep) s)) sep
      else [s])"
  by pat_completeness auto
termination
proof (relation "measure (\<lambda>(s, sep). length s)")
  show "wf (measure (\<lambda>(s, sep). length s))" by simp
next
  fix s :: string and sep :: char
  assume "sep \<in> set s"
  then have "dropWhile (\<lambda>c. c \<noteq> sep) s \<noteq> []" by (simp add: dropWhile_eq_Nil_conv)
  then have "length (tl (dropWhile (\<lambda>c. c \<noteq> sep) s)) < length (dropWhile (\<lambda>c. c \<noteq> sep) s)"
    by (cases "dropWhile (\<lambda>c. c \<noteq> sep) s") simp_all
  also have "\<dots> \<le> length s" by (rule length_dropWhile_le)
  finally show "((tl (dropWhile (\<lambda>c. c \<noteq> sep) s), sep), (s, sep)) \<in> measure (\<lambda>(s, sep). length s)"
    by simp
qed

declare Split.simps [simp del]

definition is_space :: "char \<Rightarrow> bool" where
  "is_space c \<longleftrightarrow> c \<in> {CHR 0x09, CHR 0x0A, CHR 0x0B, CHR 0x0C, CHR 0x0D, CHR '' ''}"

definition TrimSpace :: "string \<Rightarrow> string" where
  "TrimSpace s = rev (dropWhile is_space (rev (dropWhile is_space s)))"

definition TrimPrefix :: "string \<Rightarrow> string \<Rightarrow> string" where
  "TrimPrefix s pre = (if HasPrefix s pre then drop (length pre) s else s)"

definition lower_char :: "char \<Rightarrow> char" where
  "lower_char c =
     (case map_of (zip ''ABCDEFGHIJKLMNOPQRSTUVWXYZ'' ''abcdefghijklmnopqrstuvwxyz'') c of
        Some l \<Rightarrow> l
      | None \<Rightarrow> c)"

definition ToLower :: "string \<Rightarrow> string" where
  "ToLower s = map lower_char s"

text \<open>\<open>%d\<close> of \<open>fmt.Sprintf\<close>.\<close>

fun decimal :: "nat \<Rightarrow> string" where
  "decimal n =
     (if n < 10 then [''0123456789'' ! n]
      else decimal (n div 10) @ [''0123456789'' ! (n mod 10)])"

declare decimal.simps [simp del]

definition show_int :: "int \<Rightarrow> string" where
  "show_int i = (if i < 0 then CHR ''-'' # decimal (nat (- i)) else decimal (nat i))"

subsection \<open>Data\<close>

text \<open>The detector's \<open>ScanResult\<close> is declared field for field like the scanner's, and
  \<open>scanner_ScanResult\<close> stands for both.\<close>

record ServiceInfo =
  si_ScanID :: string
  si_Target :: string
  si_Port :: int
  Service :: string
  Version :: string
  Banner :: string

definition serviceRegistry :: "int \<rightharpoonup> string" where
  "serviceRegistry =
     map_of [(21, ''FTP''), (22, ''SSH''), (23, ''Telnet''), (25, ''SMTP''), (80, ''HTTP''),
       (110, ''POP3''), (143, ''IMAP''), (443, ''HTTPS''), (445, ''SMB''), (1433, ''MSSQL''),
       (3306, ''MySQL''), (3389, ''RDP''), (5432, ''PostgreSQL''), (5900, ''VNC''),
       (6379, ''Redis''), (8080, ''HTTP-Proxy''), (8443, ''HTTPS-Alt''), (27017, ''MongoDB'')]"

text \<open>
  What the network answers during one handler: the result of \<open>net.DialTimeout\<close>, of the
  first and second \<open>Write\<close>, of the first and second read (the bytes returned and the
  error; a \<open>conn.Read\<close> into the 1024-byte buffer keeps at most 1024 of them), and of
  \<open>client.Get\<close>. Each call has the deadline of two seconds; a call that misses it returns
  an error like any other. What a handler writes (the PING, the cancel packet, the
  isMaster query) is fixed and does not enter its result.
\<close>

record http_response =
  Proto :: string
  StatusCode :: int
  Status :: string
  Server :: string

record probe_io =
  dial :: "go_error option"
  write1 :: "go_error option"
  read1 :: "string \<times> go_error option"
  write2 :: "go_error option"
  read2 :: "string \<times> go_error option"
  http_get :: "go_error + http_response"

text \<open>\<open>err != nil && err != io.EOF\<close>\<close>

definition real_error :: "go_error option \<Rightarrow> bool" where
  "real_error err \<longleftrightarrow> err \<noteq> None \<and> err \<noteq> Some EOF"

subsection \<open>The handlers\<close>

definition detectSSH :: "probe_io \<Rightarrow> ServiceInfo \<Rightarrow> ServiceInfo" where
  "detectSSH io info =
     (case dial io of
        Some err \<Rightarrow> info
      | None \<Rightarrow>
          let banner = fst (read1 io); err = snd (read1 io) in
          if real_error err then info
          else
            let info = info\<lparr>Banner := TrimSpace banner\<rparr> in
            if Contains banner ''SSH'' then
              let info = info\<lparr>Service := ''SSH''\<rparr> in
              if Contains banner ''OpenSSH'' then
                let parts = Split banner CHR '' '' in
                if length parts > 1 then info\<lparr>Version := parts ! 1\<rparr> else info
              else info
            else info)"

definition http_banner :: "string \<Rightarrow> http_response \<Rightarrow> ServiceInfo \<Rightarrow> ServiceInfo" where
  "http_banner name resp info =
     (let info = info\<lparr>Service := name\<rparr>;
          line = name @ ''/'' @ Proto resp @ '' '' @ show_int (StatusCode resp) @ '' '' @ Status resp
      in if Server resp \<noteq> [] then
           info\<lparr>Version := Server resp, Banner := line @ '' - Server: '' @ Server resp\<rparr>
         else info\<lparr>Banner := line\<rparr>)"

definition detectHTTP :: "probe_io \<Rightarrow> ServiceInfo \<Rightarrow> ServiceInfo" where
  "detectHTTP io info =
     (case http_get io of Inl err \<Rightarrow> info | Inr resp \<Rightarrow> http_banner ''HTTP'' resp info)"

definition detectHTTPS :: "probe_io \<Rightarrow> ServiceInfo \<Rightarrow> ServiceInfo" where
  "detectHTTPS io info =
     (case http_get io of Inl err \<Rightarrow> info | Inr resp \<Rightarrow> http_banner ''HTTPS'' resp info)"

text \<open>The loop \<open>for i := 5; i < n && buf[i] != 0; i++ { versionEnd = i }\<close>.\<close>

function version_end :: "string \<Rightarrow> nat \<Rightarrow> nat \<Rightarrow> nat" where
  "version_end buf i versionEnd =
     (if i < length buf \<and> buf ! i \<noteq> CHR 0x00 then version_end buf (Suc i) i else versionEnd)"
  by pat_completeness auto
termination
  by (relation "measure (\<lambda>(buf, i, versionEnd). length buf - i)") auto

declare version_end.simps [simp del]

definition detectMySQL :: "probe_io \<Rightarrow> ServiceInfo \<Rightarrow> ServiceInfo" where
  "detectMySQL io info =
     (case dial io of
        Some err \<Rightarrow> info
      | None \<Rightarrow>
          let buf = take 1024 (fst (read1 io)); n = length buf; err = snd (read1 io) in
          if real_error err then info
          else if n > 4 \<and> buf ! 4 = CHR 0x0A then
            let info = info\<lparr>Service := ''MySQL''\<rparr>;
                versionEnd = version_end buf 5 5
            in if versionEnd > 5 then
                 let version = take (versionEnd - 5) (drop 5 buf) in
                 info\<lparr>Version := version, Banner := ''MySQL '' @ version\<rparr>
               else info
          else info)"

definition detectPostgreSQL :: "probe_io \<Rightarrow> ServiceInfo \<Rightarrow> ServiceInfo" where
  "detectPostgreSQL io info =
     (case dial io of
        Some err \<Rightarrow> info
      | None \<Rightarrow>
          (case write1 io of
             Some err \<Rightarrow> info
           | None \<Rightarrow>
               let n = length (take 1024 (fst (read1 io))); err = snd (read1 io) in
               if n > 0 \<or> (case err of None \<Rightarrow> False
                            | Some e \<Rightarrow> Contains (error_text e) ''connection reset'')
               then info\<lparr>Service := ''PostgreSQL'', Banner := ''PostgreSQL server''\<rparr>
               else info))"

text \<open>The loop over the lines of the INFO reply, up to its \<open>break\<close>.\<close>

fun redis_version :: "string list \<Rightarrow> string \<Rightarrow> string" where
  "redis_version [] version = version"
| "redis_version (line # lines) version =
     (if HasPrefix line ''redis_version:''
      then TrimSpace (TrimPrefix line ''redis_version:'')
      else redis_version lines version)"

definition detectRedis :: "probe_io \<Rightarrow> ServiceInfo \<Rightarrow> ServiceInfo" where
  "detectRedis io info =
     (case dial io of
        Some err \<Rightarrow> info
      | None \<Rightarrow>
          (case write1 io of
             Some err \<Rightarrow> info
           | None \<Rightarrow>
               let response = fst (read1 io); err = snd (read1 io) in
               if real_error err then info
               else if Contains response ''PONG'' \<or> HasPrefix response ''+'' then
                 let info = info\<lparr>Service := ''Redis''\<rparr>;
                     infoStr = take 1024 (fst (read2 io));
                     info =
                       (if length infoStr > 0 \<and> Contains infoStr ''redis_version''
                        then info\<lparr>Version := redis_version (Split infoStr CHR 0x0A) (Version info)\<rparr>
                        else info)
                 in if Version info \<noteq> [] then info\<lparr>Banner := ''Redis '' @ Version info\<rparr>
                    else info\<lparr>Banner := ''Redis server''\<rparr>
               else info))"

definition detectMongoDB :: "probe_io \<Rightarrow> ServiceInfo \<Rightarrow> ServiceInfo" where
  "detectMongoDB io info =
     (case dial io of
        Some err \<Rightarrow> info
      | None \<Rightarrow>
          (case write1 io of
             Some err \<Rightarrow> info
           | None \<Rightarrow>
               if length (take 1024 (fst (read1 io))) > 0
               then info\<lparr>Service := ''MongoDB'', Banner := ''MongoDB server''\<rparr>
               else info))"

text \<open>The bytes \<open>grabBanner\<close> ends up with: those of the first read, or, when that read
  failed without a byte, those of the read after sending a line terminator.\<close>

definition banner_bytes :: "probe_io \<Rightarrow> string" where
  "banner_bytes io =
     (if real_error (snd (read1 io)) \<and> length (take 1024 (fst (read1 io))) = 0
      then take 1024 (fst (read2 io))
      else take 1024 (fst (read1 io)))"

definition guess_service :: "string \<Rightarrow> string \<Rightarrow> string" where
  "guess_service bannerLower service =
     (if Contains bannerLower ''ftp'' then ''FTP''
      else if Contains bannerLower ''smtp'' then ''SMTP''
      else if Contains bannerLower ''pop3'' then ''POP3''
      else if Contains bannerLower ''imap'' then ''IMAP''
      else if Contains bannerLower ''http'' then ''HTTP''
      else if Contains bannerLower ''ssh'' then ''SSH''
      else if service = [] then ''Unknown''
      else service)"

definition grabBanner :: "probe_io \<Rightarrow> ServiceInfo \<Rightarrow> ServiceInfo" where
  "grabBanner io info =
     (case dial io of
        Some err \<Rightarrow> info
      | None \<Rightarrow>
          let buf = banner_bytes io in
          if length buf > 0 then
            let banner = TrimSpace buf;
                banner = filter (\<lambda>c. c \<noteq> CHR 0x0D) banner;
                banner = map (\<lambda>c. if c = CHR 0x0A then CHR '' '' else c) banner;
                banner = (if length banner > 200 then take 200 banner @ ''...'' else banner);
                info = info\<lparr>Banner := banner\<rparr>
            in info\<lparr>Service := guess_service (ToLower banner) (Service info)\<rparr>
          else info)"

text \<open>\<open>detectService\<close>, up to the hand-off to \<open>publishServiceInfo\<close>.\<close>

definition detectService :: "scanner_ScanResult \<Rightarrow> probe_io \<Rightarrow> ServiceInfo" where
  "detectService result io =
     (let serviceInfo = \<lparr>si_ScanID = sr_ID result, si_Target = sr_Target result,
                          si_Port = sr_Port result, Service = [], Version = [], Banner = []\<rparr>;
          serviceInfo =
            (case serviceRegistry (sr_Port result) of
               Some service \<Rightarrow> serviceInfo\<lparr>Service := service\<rparr>
             | None \<Rightarrow> serviceInfo);
          port = sr_Port result
      in if port = 22 then detectSSH io serviceInfo
         else if port = 80 \<or> port = 8080 then detectHTTP io serviceInfo
         else if port = 443 \<or> port = 8443 then detectHTTPS io serviceInfo
         else if port = 3306 then detectMySQL io serviceInfo
         else if port = 5432 then detectPostgreSQL io serviceInfo
         else if port = 6379 then detectRedis io serviceInfo
         else if port = 27017 then detectMongoDB io serviceInfo
         else grabBanner io serviceInfo)"

section \<open>Properties of report synthesis\<close>

lemma count_results_eq:
  "count_results sm rs (oc, cc, ops) =
     (oc + int (length (filter (\<lambda>r. State r = ''open'') rs)),
      cc + int (length (filter (\<lambda>r. State r \<noteq> ''open'' \<and> State r = ''closed'') rs)),
      ops @ map (portInfo_of sm) (filter (\<lambda>r. State r = ''open'') rs))"
  by (induction rs arbitrary: oc cc ops) simp_all

lemma generateReport_OpenPorts:
  "rep_OpenPorts (generateReport now a) =
     map (portInfo_of (build_serviceMap Map.empty (services a)))
       (filter (\<lambda>r. State r = ''open'') (results a))"
  by (simp add: generateReport_def count_results_eq)

lemma generateReport_Statistics:
  "rep_Statistics (generateReport now a) =
     \<lparr>TotalPorts = int (length (results a)),
      OpenPorts = int (length (filter (\<lambda>r. State r = ''open'') (results a))),
      ClosedPorts = int (length (filter (\<lambda>r. State r = ''closed'') (results a)))\<rparr>"
proof -
  have "filter (\<lambda>r. State r \<noteq> ''open'' \<and> State r = ''closed'') (results a)
      = filter (\<lambda>r. State r = ''closed'') (results a)"
    by (rule filter_cong) auto
  then show ?thesis
    by (simp add: generateReport_def count_results_eq)
qed

lemma portInfo_of_Port: "op_Port (portInfo_of sm r) = Port r"
  by (simp add: portInfo_of_def split: option.splits)

text \<open>
  Claim C6. In every generated report, \<open>stats.open\<close> equals the length of the
  \<open>openPorts\<close> list, and both equal the number of accumulated results whose state is
  \<open>open\<close>; the \<open>openPorts\<close> list is, entry by entry and in order, the list of open
  results (the ports agree position by position), so every open result has exactly one
  entry of its own.
\<close>

theorem report_open_count_consistent:
  "OpenPorts (rep_Statistics (generateReport now a)) = int (length (rep_OpenPorts (generateReport now a)))
   \<and> int (length (rep_OpenPorts (generateReport now a)))
       = int (length (filter (\<lambda>r. State r = ''open'') (results a)))
   \<and> map op_Port (rep_OpenPorts (generateReport now a))
       = map Port (filter (\<lambda>r. State r = ''open'') (results a))"
  by (simp add: generateReport_OpenPorts generateReport_Statistics portInfo_of_Port comp_def)

section \<open>Reporter agent: invariants of the registry\<close>

text \<open>
  An address is \<^emph>\<open>held\<close> by timer \<open>i\<close> when the callback of that timer has removed the
  aggregate from the registry and has yet to report it.
\<close>

definition holds :: "timer_state list \<Rightarrow> nat \<Rightarrow> nat \<Rightarrow> bool" where
  "holds ts i a \<longleftrightarrow> i < length ts \<and> ts ! i = Callback (CB_report a)"

lemma holds_update:
  "holds (ts[k := t]) i a \<longleftrightarrow> (if i = k then k < length ts \<and> t = Callback (CB_report a) else holds ts i a)"
  by (auto simp: holds_def)

lemma holds_append:
  "holds (ts @ [t]) i a \<longleftrightarrow> holds ts i a \<or> (i = length ts \<and> t = Callback (CB_report a))"
  by (auto simp: holds_def nth_append)

definition tokens_ok :: "(string \<rightharpoonup> nat) \<Rightarrow> nat \<Rightarrow> timer_state list \<Rightarrow> result_pc \<Rightarrow> nat list \<Rightarrow> bool" where
  "tokens_ok reg n ts rh sv \<longleftrightarrow>
     (\<forall>sid a. reg sid = Some a \<longrightarrow>
        a < n \<and> a \<notin> set sv \<and> rh \<noteq> R_report a \<and> (\<forall>i. \<not> holds ts i a) \<and>
        (\<forall>sid'. reg sid' = Some a \<longrightarrow> sid' = sid))
   \<and> (\<forall>a. rh = R_report a \<longrightarrow> a < n \<and> a \<notin> set sv \<and> (\<forall>i. \<not> holds ts i a))
   \<and> (\<forall>i a. holds ts i a \<longrightarrow> a < n \<and> a \<notin> set sv \<and> (\<forall>j. holds ts j a \<longrightarrow> j = i))
   \<and> distinct sv \<and> (\<forall>a \<in> set sv. a < n)
   \<and> length ts = n"

lemma tokens_pc:
  "tokens_ok reg n ts rh sv \<Longrightarrow> \<forall>a. rh' \<noteq> R_report a \<Longrightarrow> tokens_ok reg n ts rh' sv"
  unfolding tokens_ok_def by simp

lemma tokens_create:
  "tokens_ok reg n ts rh sv \<Longrightarrow> reg sid = None \<Longrightarrow> \<forall>a. rh' \<noteq> R_report a \<Longrightarrow>
   tokens_ok (reg(sid \<mapsto> n)) (Suc n) (ts @ [Armed e]) rh' sv"
  unfolding tokens_ok_def
  apply (elim conjE)
  apply (intro conjI allI impI ballI)
  apply (simp_all (no_asm_use) add: holds_append split: if_splits)
  apply (blast | metis less_Suc_eq less_irrefl option.distinct(1))+
  done

lemma tokens_update_plain:
  "tokens_ok reg n ts rh sv \<Longrightarrow> \<forall>b. t \<noteq> Callback (CB_report b) \<Longrightarrow>
   tokens_ok reg n (ts[k := t]) rh sv"
  unfolding tokens_ok_def
  apply (elim conjE)
  apply (intro conjI allI impI ballI)
  apply (simp_all (no_asm_use) add: holds_update split: if_splits)
  apply (blast | metis)+
  done

lemma tokens_delete_to_rh:
  "tokens_ok reg n ts rh sv \<Longrightarrow> reg sid = Some agg \<Longrightarrow> \<forall>a. rh \<noteq> R_report a \<Longrightarrow>
   tokens_ok (reg(sid := None)) n ts (R_report agg) sv"
  unfolding tokens_ok_def
  apply (elim conjE)
  apply (intro conjI allI impI ballI)
  apply (simp_all (no_asm_use) split: if_splits)
  apply (blast | metis)+
  done

lemma tokens_delete_to_cb:
  "tokens_ok reg n ts rh sv \<Longrightarrow> reg sid = Some agg \<Longrightarrow> k < length ts \<Longrightarrow>
   \<forall>b. ts ! k \<noteq> Callback (CB_report b) \<Longrightarrow>
   tokens_ok (reg(sid := None)) n (ts[k := Callback (CB_report agg)]) rh sv"
  unfolding tokens_ok_def
  apply (elim conjE)
  apply (intro conjI allI impI ballI)
  apply (simp_all (no_asm_use) add: holds_update split: if_splits)
  apply (blast | metis)+
  done

lemma tokens_report_rh:
  "tokens_ok reg n ts rh sv \<Longrightarrow> rh = R_report agg \<Longrightarrow> tokens_ok reg n ts R_idle (sv @ [agg])"
  unfolding tokens_ok_def
  apply (elim conjE)
  apply (intro conjI allI impI ballI)
  apply (simp_all (no_asm_use))
  apply (blast | metis)+
  done

lemma tokens_report_cb:
  "tokens_ok reg n ts rh sv \<Longrightarrow> holds ts k agg \<Longrightarrow>
   tokens_ok reg n (ts[k := Callback CB_done]) rh (sv @ [agg])"
  unfolding tokens_ok_def
  apply (elim conjE)
  apply (intro conjI allI impI ballI)
  apply (simp_all (no_asm_use) add: holds_update split: if_splits)
  apply (blast | metis)+
  done

lemma tokens_stop:
  assumes "tokens_ok reg n (map tstate tms) rh sv"
  shows "tokens_ok reg n (map tstate (tms[a := stop_timer (tms ! a)])) rh sv"
proof (cases "tstate (stop_timer (tms ! a)) = tstate (tms ! a)")
  case True
  then have "map tstate (tms[a := stop_timer (tms ! a)]) = map tstate tms"
    by (simp add: map_update) (metis list_update_id map_update)
  with assms show ?thesis by simp
next
  case False
  then have "tstate (stop_timer (tms ! a)) = Stopped"
    by (simp add: stop_timer_def split: timer_state.splits)
  then have "map tstate (tms[a := stop_timer (tms ! a)]) = (map tstate tms)[a := Stopped]"
    by (simp add: map_update)
  with assms show ?thesis by (simp add: tokens_update_plain)
qed

subsection \<open>The shutdown loop\<close>

lemma shutdown_loop_fields:
  "heap (shutdown_loop as st) = heap st"
  "scanAggregators (shutdown_loop as st) = scanAggregators st"
  "result_handler (shutdown_loop as st) = result_handler st"
  "service_handler (shutdown_loop as st) = service_handler st"
  "clock (shutdown_loop as st) = clock st"
  "shut_down (shutdown_loop as st) = shut_down st"
  "length (timers (shutdown_loop as st)) = length (timers st)"
  "map cb_scanID (timers (shutdown_loop as st)) = map cb_scanID (timers st)"
  "map fst (saved (shutdown_loop as st)) = map fst (saved st) @ as"
  by (induction as arbitrary: st; simp add: map_update stop_timer_def split: timer_state.splits;
      metis list_update_id map_update)+

lemma stop_timer_idem: "stop_timer (stop_timer t) = stop_timer t"
  by (simp add: stop_timer_def split: timer_state.splits)

lemma shutdown_loop_timers:
  "k < length (timers st) \<Longrightarrow>
   timers (shutdown_loop as st) ! k = (if k \<in> set as then stop_timer (timers st ! k) else timers st ! k)"
proof (induction as arbitrary: st)
  case Nil
  show ?case by simp
next
  case (Cons a as)
  let ?st = "st\<lparr>timers := (timers st)[a := stop_timer (timers st ! a)],
               saved := saved st @ [(a, generateReport (clock st) (heap st ! a))]\<rparr>"
  from Cons.prems have k: "k < length (timers ?st)" by simp
  show ?case
  proof (cases "k = a")
    case True
    with Cons.prems have "timers ?st ! k = stop_timer (timers st ! k)" by simp
    with Cons.IH[OF k] True show ?thesis by (simp add: stop_timer_idem)
  next
    case False
    then have "timers ?st ! k = timers st ! k" by simp
    with Cons.IH[OF k] False show ?thesis by simp
  qed
qed

lemma shutdown_loop_saved:
  "saved (shutdown_loop as st) =
     saved st @ map (\<lambda>a. (a, generateReport (clock st) (heap st ! a))) as"
  by (induction as arbitrary: st) (simp_all add: shutdown_loop_fields)

lemma shutdown_loop_tokens:
  "tokens_ok reg n (map tstate (timers st)) rh sv \<Longrightarrow>
   tokens_ok reg n (map tstate (timers (shutdown_loop as st))) rh sv"
  by (induction as arbitrary: st) (simp_all add: tokens_stop)

text \<open>
  The invariant of the registry. The reports saved so far are those of the two triggers
  (\<open>sv\<close>) and those of the shutdown loop (\<open>fin\<close>). As far as the triggers go an aggregate
  is in at most one of four places: registered (under exactly one scan id), held by the
  result handler for reporting, held by one timer callback for reporting, or reported
  (once). The shutdown loop reports an aggregate at most once.
\<close>

definition inv_for :: "reporter \<Rightarrow> nat list \<Rightarrow> nat list \<Rightarrow> bool" where
  "inv_for st sv fin \<longleftrightarrow>
     tokens_ok (scanAggregators st) (length (heap st)) (map tstate (timers st))
       (result_handler st) sv
     \<and> mset (map fst (saved st)) = mset sv + mset fin
     \<and> distinct fin \<and> (shut_down st \<or> fin = [])"

definition inv :: "reporter \<Rightarrow> bool" where
  "inv st \<longleftrightarrow> (\<exists>sv fin. inv_for st sv fin)"

lemma inv_init: "inv init"
  unfolding inv_def
  by (rule exI[of _ "[]"], rule exI[of _ "[]"])
     (simp add: inv_for_def init_def tokens_ok_def holds_def)

lemma map_update_same: "(map f xs)[k := f (xs ! k)] = map f xs"
  by (metis list_update_id map_update)

lemma tstate_stop_timer: "tstate (stop_timer t) = tstate t \<or> tstate (stop_timer t) = Stopped"
  by (simp add: stop_timer_def split: timer_state.splits)

lemma inv_scan_result_msg: "inv_for st sv fin \<Longrightarrow> scan_result_msg msg st = Some st' \<Longrightarrow> inv_for st' sv fin"
  by (auto simp: inv_for_def scan_result_msg_def Let_def split: if_splits option.splits
      intro: tokens_pc tokens_create)

lemma inv_result_append: "inv_for st sv fin \<Longrightarrow> result_append st = Some st' \<Longrightarrow> inv_for st' sv fin"
  by (auto simp: inv_for_def result_append_def Let_def split: result_pc.splits intro: tokens_pc)

lemma inv_result_check: "inv_for st sv fin \<Longrightarrow> result_check st = Some st' \<Longrightarrow> inv_for st' sv fin"
proof -
  assume i: "inv_for st sv fin" and s: "result_check st = Some st'"
  show ?thesis
  proof (cases "result_handler st")
    case (R_check cnt result)
    show ?thesis
    proof (cases "cnt \<ge> maxResultsWait \<and> scanAggregators st (ScanID result) \<noteq> None")
      case False
      with s R_check have "st' = st\<lparr>result_handler := R_idle\<rparr>"
        by (auto simp: result_check_def split: if_splits option.splits)
      with i show ?thesis by (auto simp: inv_for_def intro: tokens_pc)
    next
      case True
      then obtain agg where agg: "scanAggregators st (ScanID result) = Some agg" by auto
      with s R_check True have st': "st' = st\<lparr>timers := (timers st)[agg := stop_timer (timers st ! agg)],
                          scanAggregators := (scanAggregators st)(ScanID result := None),
                          result_handler := R_report agg\<rparr>"
        by (auto simp: result_check_def)
      from i R_check agg have 1: "tokens_ok ((scanAggregators st)(ScanID result := None)) (length (heap st))
            (map tstate (timers st)) (R_report agg) sv"
        unfolding inv_for_def by (intro tokens_delete_to_rh) auto
      from tokens_stop[OF 1] i show ?thesis unfolding st' inv_for_def by simp
    qed
  qed (use s in \<open>auto simp: result_check_def\<close>)
qed

lemma inv_result_report:
  "inv_for st sv fin \<Longrightarrow> result_report st = Some st' \<Longrightarrow> \<exists>sv'. inv_for st' sv' fin"
  by (auto simp: inv_for_def result_report_def split: result_pc.splits
      intro!: exI[of _ "sv @ [agg]" for agg] tokens_report_rh)

lemma inv_timer_fire: "inv_for st sv fin \<Longrightarrow> timer_fire a st = Some st' \<Longrightarrow> inv_for st' sv fin"
  by (auto simp: inv_for_def timer_fire_def map_update split: if_splits timer_state.splits
      intro: tokens_update_plain)

lemma inv_timer_check:
  assumes i: "inv_for st sv fin" and s: "timer_check a st = Some st'"
  shows "inv_for st' sv fin"
proof -
  from s have a: "a < length (timers st)" and w: "tstate (timers st ! a) = Callback CB_waiting"
    by (auto simp: timer_check_def split: if_splits)
  show ?thesis
  proof (cases "scanAggregators st (cb_scanID (timers st ! a))")
    case None
    with s a w have "st' = st\<lparr>timers := (timers st)[a := (timers st ! a)\<lparr>tstate := Callback CB_done\<rparr>]\<rparr>"
      by (simp add: timer_check_def)
    with i show ?thesis
      by (simp add: inv_for_def map_update tokens_update_plain)
  next
    case (Some agg)
    with s a w have st': "st' = st\<lparr>timers := (timers st)[a := (timers st ! a)\<lparr>tstate := Callback (CB_report agg)\<rparr>],
                      scanAggregators := (scanAggregators st)(cb_scanID (timers st ! a) := None)\<rparr>"
      by (simp add: timer_check_def)
    from i Some a w
    have "tokens_ok ((scanAggregators st)(cb_scanID (timers st ! a) := None)) (length (heap st))
            ((map tstate (timers st))[a := Callback (CB_report agg)]) (result_handler st) sv"
      unfolding inv_for_def by (intro tokens_delete_to_cb) auto
    with i show ?thesis
      unfolding st' inv_for_def by (simp add: map_update)
  qed
qed

lemma inv_timer_report:
  "inv_for st sv fin \<Longrightarrow> timer_report a st = Some st' \<Longrightarrow> \<exists>sv'. inv_for st' sv' fin"
  by (auto simp: inv_for_def timer_report_def map_update holds_def
      split: if_splits timer_state.splits callback_pc.splits
      intro!: exI[of _ "sv @ [agg]" for agg] tokens_report_cb)

lemma inv_service_msg: "inv_for st sv fin \<Longrightarrow> service_msg msg st = Some st' \<Longrightarrow> inv_for st' sv fin"
  by (auto simp: inv_for_def service_msg_def split: if_splits option.splits)

lemma inv_service_append: "inv_for st sv fin \<Longrightarrow> service_append st = Some st' \<Longrightarrow> inv_for st' sv fin"
  by (auto simp: inv_for_def service_append_def Let_def split: service_pc.splits)

lemma inv_shutdown:
  assumes "inv_for st sv fin" and "shutdown order st = Some st'"
  shows "inv_for st' sv order"
proof -
  from assms(2) have st': "st' = (shutdown_loop order st)\<lparr>shut_down := True\<rparr>"
    and g: "\<not> shut_down st" "distinct order"
    by (auto simp: shutdown_def split: if_splits)
  from assms(1) g(1) have f: "fin = []" by (simp add: inv_for_def)
  from assms(1) have "tokens_ok (scanAggregators st) (length (heap st))
      (map tstate (timers (shutdown_loop order st))) (result_handler st) sv"
    unfolding inv_for_def by (intro shutdown_loop_tokens) simp
  with assms(1) g f show ?thesis
    unfolding st' inv_for_def by (simp add: shutdown_loop_fields)
qed

lemma inv_step:
  assumes "inv st" and "step l st = Some st'"
  shows "inv st'"
proof -
  from assms(1) obtain sv fin where i: "inv_for st sv fin" unfolding inv_def by blast
  show ?thesis
  proof (cases l)
    case (Tick d)
    with assms(2) i have "inv_for st' sv fin" by (auto simp: inv_for_def)
    then show ?thesis unfolding inv_def by blast
  next
    case Result_Report
    with assms(2) have "result_report st = Some st'" by simp
    from inv_result_report[OF i this] show ?thesis unfolding inv_def by blast
  next
    case (Timer_Report a)
    with assms(2) have "timer_report a st = Some st'" by simp
    from inv_timer_report[OF i this] show ?thesis unfolding inv_def by blast
  next
    case (Shutdown order)
    with assms(2) have "shutdown order st = Some st'" by simp
    from inv_shutdown[OF i this] show ?thesis unfolding inv_def by blast
  qed (use assms(2) i in \<open>auto simp: inv_def intro: inv_scan_result_msg inv_result_append
        inv_result_check inv_timer_fire inv_timer_check inv_service_msg inv_service_append\<close>)
qed

lemma inv_run: "inv st \<Longrightarrow> run ls st = Some st' \<Longrightarrow> inv st'"
  by (induction ls arbitrary: st) (auto split: option.splits intro: inv_step)

lemma reachable_inv: "reachable st \<Longrightarrow> inv st"
  unfolding reachable_def using inv_run[OF inv_init] by blast

subsection \<open>No aggregate is lost\<close>

text \<open>A timer that has yet to run the check of its callback.\<close>

fun is_pending :: "timer_state \<Rightarrow> bool" where
  "is_pending (Armed expiry) = True"
| "is_pending (Callback CB_waiting) = True"
| "is_pending _ = False"

definition keys_ok :: "(string \<rightharpoonup> nat) \<Rightarrow> string list \<Rightarrow> string list \<Rightarrow> bool" where
  "keys_ok reg ids cbs \<longleftrightarrow>
     length cbs = length ids
   \<and> (\<forall>sid a. reg sid = Some a \<longrightarrow> a < length ids \<and> ids ! a = sid \<and> cbs ! a = sid)"

definition own_trigger :: "(string \<rightharpoonup> nat) \<Rightarrow> timer_state list \<Rightarrow> nat set \<Rightarrow> bool" where
  "own_trigger reg ts sv \<longleftrightarrow> (\<forall>sid a. reg sid = Some a \<longrightarrow> is_pending (ts ! a) \<or> a \<in> sv)"

definition nothing_lost ::
  "(string \<rightharpoonup> nat) \<Rightarrow> nat \<Rightarrow> timer_state list \<Rightarrow> result_pc \<Rightarrow> nat set \<Rightarrow> bool" where
  "nothing_lost reg n ts rh sv \<longleftrightarrow>
     (\<forall>a < n. (\<exists>sid. reg sid = Some a) \<or> rh = R_report a \<or> (\<exists>i. holds ts i a) \<or> a \<in> sv)"

lemma keys_create:
  "keys_ok reg ids cbs \<Longrightarrow> reg sid = None \<Longrightarrow>
   keys_ok (reg(sid \<mapsto> length ids)) (ids @ [sid]) (cbs @ [sid])"
  unfolding keys_ok_def by (auto simp: nth_append intro: less_SucI)

lemma keys_delete:
  "keys_ok reg ids cbs \<Longrightarrow> keys_ok (reg(sid := None)) ids cbs"
  unfolding keys_ok_def by auto

lemma own_create:
  "own_trigger reg ts sv \<Longrightarrow> \<forall>sid a. reg sid = Some a \<longrightarrow> a < length ts \<Longrightarrow>
   own_trigger (reg(sid \<mapsto> length ts)) (ts @ [Armed e]) sv"
  unfolding own_trigger_def by (auto simp: nth_append)

lemma own_delete:
  "own_trigger reg ts sv \<Longrightarrow> own_trigger (reg(sid := None)) ts sv"
  unfolding own_trigger_def by auto

lemma own_update:
  "own_trigger reg ts sv \<Longrightarrow> (\<forall>sid. reg sid \<noteq> Some k) \<or> is_pending t \<or> k \<in> sv \<Longrightarrow>
   own_trigger reg (ts[k := t]) sv"
  unfolding own_trigger_def by (metis nth_list_update_eq nth_list_update_neq list_update_beyond linorder_not_less)

lemma own_mono:
  "own_trigger reg ts sv \<Longrightarrow> sv \<subseteq> sv' \<Longrightarrow> own_trigger reg ts sv'"
  unfolding own_trigger_def by blast

lemma own_all:
  "\<forall>sid a. reg sid = Some a \<longrightarrow> a \<in> sv \<Longrightarrow> own_trigger reg ts sv"
  unfolding own_trigger_def by blast

lemma lost_pc:
  "nothing_lost reg n ts rh sv \<Longrightarrow> \<forall>a. rh \<noteq> R_report a \<Longrightarrow> nothing_lost reg n ts rh' sv"
  unfolding nothing_lost_def by blast

lemma lost_create:
  "nothing_lost reg n ts rh sv \<Longrightarrow> \<forall>a. rh \<noteq> R_report a \<Longrightarrow> reg sid = None \<Longrightarrow>
   nothing_lost (reg(sid \<mapsto> n)) (Suc n) (ts @ [Armed e]) rh' sv"
  unfolding nothing_lost_def by (auto simp: holds_append less_Suc_eq) (metis option.distinct(1))+

lemma lost_delete_rh:
  "nothing_lost reg n ts rh sv \<Longrightarrow> reg sid = Some agg \<Longrightarrow> \<forall>a. rh \<noteq> R_report a \<Longrightarrow>
   nothing_lost (reg(sid := None)) n ts (R_report agg) sv"
  unfolding nothing_lost_def by (auto) (metis option.inject)+

lemma lost_delete_cb:
  "nothing_lost reg n ts rh sv \<Longrightarrow> reg sid = Some agg \<Longrightarrow> k < length ts \<Longrightarrow>
   \<forall>b. ts ! k \<noteq> Callback (CB_report b) \<Longrightarrow>
   nothing_lost (reg(sid := None)) n (ts[k := Callback (CB_report agg)]) rh sv"
  unfolding nothing_lost_def by (auto simp: holds_update) (metis holds_def option.inject)+

lemma lost_update:
  "nothing_lost reg n ts rh sv \<Longrightarrow> \<forall>b. ts ! k \<noteq> Callback (CB_report b) \<Longrightarrow>
   nothing_lost reg n (ts[k := t]) rh sv"
  unfolding nothing_lost_def by (auto simp: holds_update) (metis holds_def)+

lemma lost_report_rh:
  "nothing_lost reg n ts rh sv \<Longrightarrow> rh = R_report agg \<Longrightarrow> nothing_lost reg n ts R_idle (insert agg sv)"
  unfolding nothing_lost_def by auto

lemma lost_report_cb:
  "nothing_lost reg n ts rh sv \<Longrightarrow> holds ts k agg \<Longrightarrow>
   nothing_lost reg n (ts[k := t]) rh (insert agg sv)"
  unfolding nothing_lost_def by (auto simp: holds_update) (metis holds_def timer_state.inject(2) callback_pc.inject)+

lemma lost_mono:
  "nothing_lost reg n ts rh sv \<Longrightarrow> sv \<subseteq> sv' \<Longrightarrow> nothing_lost reg n ts rh sv'"
  unfolding nothing_lost_def by blast

lemma lost_timers:
  "nothing_lost reg n ts rh sv \<Longrightarrow> \<forall>i a. holds ts i a \<longrightarrow> holds ts' i a \<Longrightarrow>
   nothing_lost reg n ts' rh sv"
  unfolding nothing_lost_def by blast


text \<open>
  Second invariant: no aggregate is lost. Every entry of the registry is an aggregate
  registered under its own scan id, which is also the scan id the callback of its timer
  looks up, and that timer has yet to run its check unless the aggregate was reported.
  Every aggregate is registered, held for reporting by the handler or by a callback, or
  reported.
\<close>

definition accounted :: "reporter \<Rightarrow> bool" where
  "accounted st \<longleftrightarrow>
     keys_ok (scanAggregators st) (map scanID (heap st)) (map cb_scanID (timers st))
   \<and> own_trigger (scanAggregators st) (map tstate (timers st)) (fst ` set (saved st))
   \<and> nothing_lost (scanAggregators st) (length (heap st)) (map tstate (timers st))
        (result_handler st) (fst ` set (saved st))"

lemma accounted_init: "accounted init"
  by (simp add: accounted_def init_def keys_ok_def own_trigger_def nothing_lost_def)

lemma keys_lengths: "keys_ok reg (map f hp) (map g tms) \<Longrightarrow> length tms = length hp"
  by (simp add: keys_ok_def)

lemma keys_bound:
  "keys_ok reg (map f hp) (map g tms) \<Longrightarrow> \<forall>sid a. reg sid = Some a \<longrightarrow> a < length (map h tms)"
  by (simp add: keys_ok_def)

lemma keys_unique:
  "keys_ok reg ids cbs \<Longrightarrow> reg sid = Some a \<Longrightarrow> reg sid' = Some a \<Longrightarrow> sid' = sid"
  unfolding keys_ok_def by metis

lemma keys_cb: "keys_ok reg ids cbs \<Longrightarrow> reg sid = Some a \<Longrightarrow> cbs ! a = sid"
  unfolding keys_ok_def by metis

lemma holds_stop:
  "holds (map tstate tms) i b \<Longrightarrow> holds (map tstate (tms[a := stop_timer (tms ! a)])) i b"
  by (cases "a = i") (auto simp: holds_def stop_timer_def)

lemma cb_stop_timer: "cb_scanID (stop_timer t) = cb_scanID t"
  by (simp add: stop_timer_def split: timer_state.splits)

lemma acc_scan_result_msg:
  assumes a: "accounted st" and s: "scan_result_msg msg st = Some st'"
  shows "accounted st'"
proof -
  from s have idle: "result_handler st = R_idle"
    by (auto simp: scan_result_msg_def split: if_splits)
  show ?thesis
  proof (cases "unmarshal_ScanResult msg")
    case None
    with s idle a show ?thesis by (simp add: scan_result_msg_def)
  next
    case (Some result)
    show ?thesis
    proof (cases "scanAggregators st (ScanID result)")
      case (Some aggregator)
      with s idle \<open>unmarshal_ScanResult msg = Some result\<close>
      have "st' = st\<lparr>result_handler := R_append aggregator result\<rparr>"
        by (simp add: scan_result_msg_def)
      with a idle show ?thesis by (auto simp: accounted_def intro: lost_pc)
    next
      case None
      with s idle \<open>unmarshal_ScanResult msg = Some result\<close>
      have st': "st' = st\<lparr>heap := heap st @
                          [\<lparr>scanID = ScanID result, target = Target result, results = [],
                            services = [], startTime = clock st, resultCount = 0\<rparr>],
                        timers := timers st @
                          [\<lparr>cb_scanID = ScanID result,
                            tstate = Armed (clock st + resultTimeout)\<rparr>],
                        scanAggregators := (scanAggregators st)(ScanID result \<mapsto> length (heap st)),
                        result_handler := R_append (length (heap st)) result\<rparr>"
        by (simp add: scan_result_msg_def Let_def)
      from a have k: "keys_ok (scanAggregators st) (map scanID (heap st)) (map cb_scanID (timers st))"
        and o: "own_trigger (scanAggregators st) (map tstate (timers st)) (fst ` set (saved st))"
        and n: "nothing_lost (scanAggregators st) (length (heap st)) (map tstate (timers st))
                  (result_handler st) (fst ` set (saved st))"
        by (simp_all add: accounted_def)
      from keys_lengths[OF k] have len: "length (timers st) = length (heap st)" .
      from keys_create[OF k None] have 1: "keys_ok ((scanAggregators st)(ScanID result \<mapsto> length (heap st)))
            (map scanID (heap st) @ [ScanID result]) (map cb_scanID (timers st) @ [ScanID result])"
        by simp
      from own_create[OF o keys_bound[OF k], of "ScanID result" "clock st + resultTimeout"] len
      have 2: "own_trigger ((scanAggregators st)(ScanID result \<mapsto> length (heap st)))
            (map tstate (timers st) @ [Armed (clock st + resultTimeout)]) (fst ` set (saved st))"
        by simp
      from lost_create[OF n _ None, of "clock st + resultTimeout" "R_append (length (heap st)) result"] idle
      have 3: "nothing_lost ((scanAggregators st)(ScanID result \<mapsto> length (heap st)))
            (Suc (length (heap st))) (map tstate (timers st) @ [Armed (clock st + resultTimeout)])
            (R_append (length (heap st)) result) (fst ` set (saved st))"
        by simp
      from 1 2 3 show ?thesis unfolding st' accounted_def by simp
    qed
  qed
qed

lemma acc_result_append: "accounted st \<Longrightarrow> result_append st = Some st' \<Longrightarrow> accounted st'"
  by (auto simp: accounted_def result_append_def Let_def map_update map_update_same
      split: result_pc.splits intro: lost_pc)

lemma acc_result_check:
  assumes a: "accounted st" and s: "result_check st = Some st'"
  shows "accounted st'"
proof (cases "result_handler st")
  case (R_check cnt result)
  from a have k: "keys_ok (scanAggregators st) (map scanID (heap st)) (map cb_scanID (timers st))"
    and o: "own_trigger (scanAggregators st) (map tstate (timers st)) (fst ` set (saved st))"
    and n: "nothing_lost (scanAggregators st) (length (heap st)) (map tstate (timers st))
              (result_handler st) (fst ` set (saved st))"
    by (simp_all add: accounted_def)
  show ?thesis
  proof (cases "cnt \<ge> maxResultsWait \<and> scanAggregators st (ScanID result) \<noteq> None")
    case False
    with s R_check have "st' = st\<lparr>result_handler := R_idle\<rparr>"
      by (auto simp: result_check_def split: if_splits option.splits)
    with a R_check show ?thesis by (auto simp: accounted_def intro: lost_pc)
  next
    case True
    then obtain agg where agg: "scanAggregators st (ScanID result) = Some agg" by auto
    with s R_check True have st': "st' = st\<lparr>timers := (timers st)[agg := stop_timer (timers st ! agg)],
                        scanAggregators := (scanAggregators st)(ScanID result := None),
                        result_handler := R_report agg\<rparr>"
      by (auto simp: result_check_def)
    let ?reg = "(scanAggregators st)(ScanID result := None)"
    let ?tms = "(timers st)[agg := stop_timer (timers st ! agg)]"
    have 1: "keys_ok ?reg (map scanID (heap st)) (map cb_scanID ?tms)"
      using keys_delete[OF k] by (simp add: map_update cb_stop_timer map_update_same)
    have unreg: "\<forall>sid. ?reg sid \<noteq> Some agg"
      using keys_unique[OF k agg] by auto
    have 2: "own_trigger ?reg (map tstate ?tms) (fst ` set (saved st))"
      using own_update[OF own_delete[OF o], of "ScanID result" agg] unreg
      by (simp add: map_update)
    have "nothing_lost ?reg (length (heap st)) (map tstate (timers st)) (R_report agg)
            (fst ` set (saved st))"
      using n agg R_check by (intro lost_delete_rh) auto
    then have 3: "nothing_lost ?reg (length (heap st)) (map tstate ?tms) (R_report agg)
            (fst ` set (saved st))"
      by (rule lost_timers) (simp add: holds_stop)
    from 1 2 3 show ?thesis unfolding st' accounted_def by simp
  qed
qed (use s in \<open>auto simp: result_check_def\<close>)

lemma acc_result_report: "accounted st \<Longrightarrow> result_report st = Some st' \<Longrightarrow> accounted st'"
  by (auto simp: accounted_def result_report_def split: result_pc.splits
      intro: lost_report_rh own_mono[OF _ subset_insertI])

lemma acc_timer_fire:
  assumes a: "accounted st" and s: "timer_fire k st = Some st'"
  shows "accounted st'"
proof -
  from s obtain e where k: "k < length (timers st)" and e: "tstate (timers st ! k) = Armed e"
    and st': "st' = st\<lparr>timers := (timers st)[k := (timers st ! k)\<lparr>tstate := Callback CB_waiting\<rparr>]\<rparr>"
    by (auto simp: timer_fire_def split: if_splits timer_state.splits)
  from a have ky: "keys_ok (scanAggregators st) (map scanID (heap st)) (map cb_scanID (timers st))"
    and o: "own_trigger (scanAggregators st) (map tstate (timers st)) (fst ` set (saved st))"
    and n: "nothing_lost (scanAggregators st) (length (heap st)) (map tstate (timers st))
              (result_handler st) (fst ` set (saved st))"
    by (simp_all add: accounted_def)
  have 2: "own_trigger (scanAggregators st) ((map tstate (timers st))[k := Callback CB_waiting])
            (fst ` set (saved st))"
    by (intro own_update[OF o]) simp
  have 3: "nothing_lost (scanAggregators st) (length (heap st))
            ((map tstate (timers st))[k := Callback CB_waiting]) (result_handler st)
            (fst ` set (saved st))"
    using k e by (intro lost_update[OF n]) simp
  from ky 2 3 show ?thesis
    unfolding st' accounted_def by (simp add: map_update map_update_same)
qed

lemma acc_timer_check:
  assumes a: "accounted st" and s: "timer_check k st = Some st'"
  shows "accounted st'"
proof -
  from s have kl: "k < length (timers st)" and w: "tstate (timers st ! k) = Callback CB_waiting"
    by (auto simp: timer_check_def split: if_splits)
  from a have k: "keys_ok (scanAggregators st) (map scanID (heap st)) (map cb_scanID (timers st))"
    and o: "own_trigger (scanAggregators st) (map tstate (timers st)) (fst ` set (saved st))"
    and n: "nothing_lost (scanAggregators st) (length (heap st)) (map tstate (timers st))
              (result_handler st) (fst ` set (saved st))"
    by (simp_all add: accounted_def)
  let ?sid = "cb_scanID (timers st ! k)"
  have cb: "map cb_scanID (timers st) ! k = ?sid" using kl by simp
  show ?thesis
  proof (cases "scanAggregators st ?sid")
    case None
    with s kl w have st': "st' = st\<lparr>timers := (timers st)[k := (timers st ! k)\<lparr>tstate := Callback CB_done\<rparr>]\<rparr>"
      by (simp add: timer_check_def)
    have unreg: "\<forall>sid. scanAggregators st sid \<noteq> Some k"
      using keys_cb[OF k, of _ k] cb None by (metis option.distinct(1))
    have 2: "own_trigger (scanAggregators st) ((map tstate (timers st))[k := Callback CB_done])
              (fst ` set (saved st))"
      using unreg by (intro own_update[OF o]) simp
    have 3: "nothing_lost (scanAggregators st) (length (heap st))
              ((map tstate (timers st))[k := Callback CB_done]) (result_handler st) (fst ` set (saved st))"
      using kl w by (intro lost_update[OF n]) simp
    from k 2 3 show ?thesis unfolding st' accounted_def by (simp add: map_update map_update_same)
  next
    case (Some agg)
    with s kl w have st': "st' = st\<lparr>timers := (timers st)[k := (timers st ! k)\<lparr>tstate := Callback (CB_report agg)\<rparr>],
                      scanAggregators := (scanAggregators st)(?sid := None)\<rparr>"
      by (simp add: timer_check_def)
    let ?reg = "(scanAggregators st)(?sid := None)"
    have unreg: "\<forall>sid. ?reg sid \<noteq> Some k"
      using keys_cb[OF k, of _ k] cb by (metis fun_upd_apply option.distinct(1))
    have 2: "own_trigger ?reg ((map tstate (timers st))[k := Callback (CB_report agg)])
              (fst ` set (saved st))"
      using unreg by (intro own_update[OF own_delete[OF o]]) simp
    have 3: "nothing_lost ?reg (length (heap st))
              ((map tstate (timers st))[k := Callback (CB_report agg)]) (result_handler st)
              (fst ` set (saved st))"
      using kl w Some by (intro lost_delete_cb[OF n]) simp_all
    from keys_delete[OF k] 2 3 show ?thesis
      unfolding st' accounted_def by (simp add: map_update map_update_same)
  qed
qed

lemma acc_timer_report:
  assumes a: "accounted st" and s: "timer_report k st = Some st'"
  shows "accounted st'"
proof -
  from s obtain agg where kl: "k < length (timers st)"
    and h: "tstate (timers st ! k) = Callback (CB_report agg)"
    and st': "st' = st\<lparr>saved := saved st @ [(agg, generateReport (clock st) (heap st ! agg))],
                      timers := (timers st)[k := (timers st ! k)\<lparr>tstate := Callback CB_done\<rparr>]\<rparr>"
    by (auto simp: timer_report_def split: if_splits timer_state.splits callback_pc.splits)
  from a have k: "keys_ok (scanAggregators st) (map scanID (heap st)) (map cb_scanID (timers st))"
    and o: "own_trigger (scanAggregators st) (map tstate (timers st)) (fst ` set (saved st))"
    and n: "nothing_lost (scanAggregators st) (length (heap st)) (map tstate (timers st))
              (result_handler st) (fst ` set (saved st))"
    by (simp_all add: accounted_def)
  have hk: "holds (map tstate (timers st)) k agg" using kl h by (simp add: holds_def)
  have np: "\<not> is_pending (map tstate (timers st) ! k)" using kl h by simp
  have "(\<forall>sid. scanAggregators st sid \<noteq> Some k) \<or> k \<in> fst ` set (saved st)"
  proof (cases "\<exists>sid. scanAggregators st sid = Some k")
    case True
    then obtain sid where "scanAggregators st sid = Some k" ..
    with o have "is_pending (map tstate (timers st) ! k) \<or> k \<in> fst ` set (saved st)"
      unfolding own_trigger_def by blast
    with np show ?thesis by blast
  next
    case False
    then show ?thesis by simp
  qed
  then have d: "(\<forall>sid. scanAggregators st sid \<noteq> Some k) \<or> is_pending (Callback CB_done)
      \<or> k \<in> insert agg (fst ` set (saved st))"
    by blast
  have 2: "own_trigger (scanAggregators st) ((map tstate (timers st))[k := Callback CB_done])
            (insert agg (fst ` set (saved st)))"
    by (rule own_update[OF own_mono[OF o subset_insertI] d])
  from lost_report_cb[OF n hk]
  have 3: "nothing_lost (scanAggregators st) (length (heap st))
            ((map tstate (timers st))[k := Callback CB_done]) (result_handler st)
            (insert agg (fst ` set (saved st)))" .
  from k 2 3 show ?thesis unfolding st' accounted_def by (simp add: map_update map_update_same)
qed

lemma acc_service_msg: "accounted st \<Longrightarrow> service_msg msg st = Some st' \<Longrightarrow> accounted st'"
  by (auto simp: accounted_def service_msg_def split: if_splits option.splits)

lemma acc_service_append: "accounted st \<Longrightarrow> service_append st = Some st' \<Longrightarrow> accounted st'"
  by (auto simp: accounted_def service_append_def Let_def map_update map_update_same
      split: service_pc.splits)

lemma is_registered_iff:
  assumes "accounted st"
  shows "is_registered st a \<longleftrightarrow> (\<exists>sid. scanAggregators st sid = Some a)"
  using assms unfolding is_registered_def accounted_def keys_ok_def
  by (metis length_map nth_map)

lemma holds_shutdown_loop:
  assumes "holds (map tstate (timers st)) i b"
  shows "holds (map tstate (timers (shutdown_loop as st))) i b"
proof -
  from assms have i: "i < length (timers st)" and h: "tstate (timers st ! i) = Callback (CB_report b)"
    by (auto simp: holds_def)
  from h have "stop_timer (timers st ! i) = timers st ! i" by (simp add: stop_timer_def)
  with shutdown_loop_timers[OF i, of as] have "timers (shutdown_loop as st) ! i = timers st ! i"
    by simp
  with i h show ?thesis by (simp add: holds_def shutdown_loop_fields)
qed

lemma acc_shutdown:
  assumes a: "accounted st" and s: "shutdown order st = Some st'"
  shows "accounted st'"
proof -
  from s have st': "st' = (shutdown_loop order st)\<lparr>shut_down := True\<rparr>"
    and g: "set order = set (filter (is_registered st) [0..<length (heap st)])"
    by (auto simp: shutdown_def split: if_splits)
  from a have k: "keys_ok (scanAggregators st) (map scanID (heap st)) (map cb_scanID (timers st))"
    and n: "nothing_lost (scanAggregators st) (length (heap st)) (map tstate (timers st))
              (result_handler st) (fst ` set (saved st))"
    by (simp_all add: accounted_def)
  have sv: "fst ` set (saved (shutdown_loop order st)) = fst ` set (saved st) \<union> set order"
    using shutdown_loop_fields(9)[of order st] by (metis set_append set_map)
  have "\<forall>sid a. scanAggregators st sid = Some a \<longrightarrow> a \<in> set order"
    using is_registered_iff[OF a] g by (auto simp: is_registered_def)
  then have 2: "own_trigger (scanAggregators st) (map tstate (timers (shutdown_loop order st)))
            (fst ` set (saved st) \<union> set order)"
    by (intro own_all) auto
  have 3: "nothing_lost (scanAggregators st) (length (heap st))
            (map tstate (timers (shutdown_loop order st))) (result_handler st)
            (fst ` set (saved st) \<union> set order)"
    by (rule lost_timers[OF lost_mono[OF n]]) (auto intro: holds_shutdown_loop)
  from k 2 3 show ?thesis
    unfolding st' accounted_def by (simp add: shutdown_loop_fields sv)
qed

lemma acc_step:
  assumes "accounted st" and "step l st = Some st'"
  shows "accounted st'"
proof (cases l)
  case (Tick d)
  with assms show ?thesis by (auto simp: accounted_def)
qed (use assms in \<open>auto intro: acc_scan_result_msg acc_result_append acc_result_check
        acc_result_report acc_timer_fire acc_timer_check acc_timer_report acc_service_msg
        acc_service_append acc_shutdown\<close>)

lemma acc_run: "accounted st \<Longrightarrow> run ls st = Some st' \<Longrightarrow> accounted st'"
  by (induction ls arbitrary: st) (auto split: option.splits intro: acc_step)

lemma reachable_accounted: "reachable st \<Longrightarrow> accounted st"
  unfolding reachable_def using acc_run[OF accounted_init] by blast

text \<open>The aggregates the shutdown loop ranges over are the entries of the registry.\<close>

lemma is_registered_ran:
  assumes "reachable st"
  shows "{a. is_registered st a} = ran (scanAggregators st)"
  using is_registered_iff[OF reachable_accounted[OF assms]] by (auto simp: ran_def)

section \<open>Reporter agent: runs of the result handler\<close>

text \<open>\<open>handleScanResult\<close> for one message, up to the threshold check; and a message that
  arrives some milliseconds after the previous event and is handled.\<close>

definition deliver :: "wire \<Rightarrow> label list" where
  "deliver msg = [ScanResultMsg msg, Result_Append, Result_Check]"

definition arrive :: "nat \<times> wire \<Rightarrow> label list" where
  "arrive dm = Tick (fst dm) # deliver (snd dm)"

text \<open>The time a list of arrivals takes, and the time of the first one.\<close>

definition elapsed :: "(nat \<times> wire) list \<Rightarrow> int" where
  "elapsed dms = int (sum_list (map fst dms))"

definition first_delay :: "(nat \<times> wire) list \<Rightarrow> int" where
  "first_delay dms = int (fst (hd dms))"

text \<open>The messages decode to the results \<open>rs\<close>, all of scan \<open>sid\<close>.\<close>

definition decode_to :: "string \<Rightarrow> (nat \<times> wire) list \<Rightarrow> models_ScanResult list \<Rightarrow> bool" where
  "decode_to sid dms rs \<longleftrightarrow>
     list_all2 (\<lambda>dm r. unmarshal_ScanResult (snd dm) = Some r \<and> ScanID r = sid) dms rs"

lemma run_append: "run (xs @ ys) st = (case run xs st of None \<Rightarrow> None | Some st' \<Rightarrow> run ys st')"
  by (induction xs arbitrary: st) (auto split: option.splits)

lemma reachable_run: "reachable st \<Longrightarrow> run ls st = Some st' \<Longrightarrow> reachable st'"
  unfolding reachable_def
  by (metis (no_types, lifting) option.simps(5) run_append)

lemma reachable_init: "reachable init"
  unfolding reachable_def by (rule exI[of _ "[]"]) simp


definition add_result :: "models_ScanResult \<Rightarrow> ScanAggregator \<Rightarrow> ScanAggregator" where
  "add_result r g = g\<lparr>results := results g @ [r], resultCount := resultCount g + 1\<rparr>"

text \<open>The aggregate created at time \<open>t0\<close> by the first of the results \<open>rs\<close> and holding
  them all.\<close>

definition accumulated :: "string \<Rightarrow> models_ScanResult list \<Rightarrow> int \<Rightarrow> ScanAggregator" where
  "accumulated sid rs t0 =
     \<lparr>scanID = sid, target = Target (hd rs), results = rs, services = [], startTime = t0,
      resultCount = int (length rs)\<rparr>"

lemma generateReport_accumulated:
  "rep_ScanID (generateReport now (accumulated sid rs t0)) = sid"
  "rep_Timestamp (generateReport now (accumulated sid rs t0)) = now"
  "TotalPorts (rep_Statistics (generateReport now (accumulated sid rs t0))) = int (length rs)"
  by (simp_all add: generateReport_def accumulated_def split: prod.splits)

lemma arrive_existing:
  assumes "result_handler st = R_idle" "unmarshal_ScanResult m = Some r"
    "scanAggregators st (ScanID r) = Some a" "a < length (heap st)"
    "resultCount (heap st ! a) + 1 < maxResultsWait"
  shows "run (arrive (d, m)) st =
     Some (st\<lparr>clock := clock st + int d, heap := (heap st)[a := add_result r (heap st ! a)]\<rparr>)"
  using assms
  by (simp add: arrive_def deliver_def scan_result_msg_def result_append_def result_check_def
      add_result_def Let_def)

lemma arrive_new:
  assumes "result_handler st = R_idle" "unmarshal_ScanResult m = Some r"
    "scanAggregators st (ScanID r) = None"
  shows "run (arrive (d, m)) st =
     Some (st\<lparr>clock := clock st + int d,
              heap := heap st @ [accumulated (ScanID r) [r] (clock st + int d)],
              timers := timers st @
                [\<lparr>cb_scanID = ScanID r, tstate = Armed (clock st + int d + resultTimeout)\<rparr>],
              scanAggregators := (scanAggregators st)(ScanID r \<mapsto> length (heap st))\<rparr>)"
  using assms
  by (simp add: arrive_def deliver_def scan_result_msg_def result_append_def result_check_def
      add_result_def accumulated_def Let_def maxResultsWait_def)

lemma arrive_threshold:
  assumes "result_handler st = R_idle" "unmarshal_ScanResult m = Some r"
    "scanAggregators st (ScanID r) = Some a" "a < length (heap st)"
    "resultCount (heap st ! a) + 1 \<ge> maxResultsWait"
  shows "run (arrive (d, m) @ [Result_Report]) st =
     Some (st\<lparr>clock := clock st + int d,
              heap := (heap st)[a := add_result r (heap st ! a)],
              timers := (timers st)[a := stop_timer (timers st ! a)],
              scanAggregators := (scanAggregators st)(ScanID r := None),
              saved := saved st @
                [(a, generateReport (clock st + int d) (add_result r (heap st ! a)))]\<rparr>)"
  using assms
  by (simp add: arrive_def deliver_def scan_result_msg_def result_append_def result_check_def
      result_report_def add_result_def Let_def)

lemma arrive_many:
  assumes "decode_to sid dms rs"
    and "result_handler st = R_idle" "scanAggregators st sid = Some a" "a < length (heap st)"
    and "resultCount (heap st ! a) + int (length dms) < maxResultsWait"
  shows "run (concat (map arrive dms)) st =
           Some (st\<lparr>clock := clock st + elapsed dms,
                    heap := (heap st)[a := (heap st ! a)
                    \<lparr>results := results (heap st ! a) @ rs,
                     resultCount := resultCount (heap st ! a) + int (length rs)\<rparr>]\<rparr>)"
  using assms unfolding decode_to_def elapsed_def
proof (induction arbitrary: st rule: list_all2_induct)
  case Nil
  then show ?case by simp
next
  case (Cons dm dms r rs)
  obtain d m where dm: "dm = (d, m)" by (cases dm)
  let ?st1 = "st\<lparr>clock := clock st + int d, heap := (heap st)[a := add_result r (heap st ! a)]\<rparr>"
  from Cons.hyps(1) Cons.prems dm have 1: "run (arrive dm) st = Some ?st1"
    unfolding dm by (intro arrive_existing) auto
  have 2: "run (concat (map arrive dms)) ?st1 =
             Some (?st1\<lparr>clock := clock ?st1 + int (sum_list (map fst dms)),
                    heap := (heap ?st1)[a := (heap ?st1 ! a)
                    \<lparr>results := results (heap ?st1 ! a) @ rs,
                     resultCount := resultCount (heap ?st1 ! a) + int (length rs)\<rparr>]\<rparr>)"
    using Cons.prems by (intro Cons.IH) (auto simp: add_result_def)
  have "run (concat (map arrive (dm # dms))) st = run (concat (map arrive dms)) ?st1"
    by (simp add: run_append 1)
  also note 2
  also have "?st1\<lparr>clock := clock ?st1 + int (sum_list (map fst dms)),
                    heap := (heap ?st1)[a := (heap ?st1 ! a)
                    \<lparr>results := results (heap ?st1 ! a) @ rs,
                     resultCount := resultCount (heap ?st1 ! a) + int (length rs)\<rparr>]\<rparr>
      = st\<lparr>clock := clock st + int (sum_list (map fst (dm # dms))),
             heap := (heap st)[a := (heap st ! a)
                    \<lparr>results := results (heap st ! a) @ r # rs,
                     resultCount := resultCount (heap st ! a) + int (length (r # rs))\<rparr>]\<rparr>"
    using Cons.prems(3) by (simp add: add_result_def add.assoc dm)
  finally show ?case .
qed

text \<open>Results for a scan id without an aggregate, fewer than the threshold: the first
  creates the aggregate and arms the timer, the others are added.\<close>

lemma accumulate_below_threshold:
  assumes dec: "decode_to sid dms rs"
    and ne: "dms \<noteq> []" and lt: "int (length dms) < maxResultsWait"
    and idle: "result_handler st = R_idle" and fresh: "scanAggregators st sid = None"
  shows "run (concat (map arrive dms)) st =
     Some (st\<lparr>clock := clock st + elapsed dms,
            heap := heap st @ [accumulated sid rs (clock st + first_delay dms)],
            timers := timers st @
              [\<lparr>cb_scanID = sid, tstate = Armed (clock st + first_delay dms + resultTimeout)\<rparr>],
            scanAggregators := (scanAggregators st)(sid \<mapsto> length (heap st))\<rparr>)"
proof -
  from dec ne obtain d m dms' r rs' where dms: "dms = (d, m) # dms'" and rs: "rs = r # rs'"
    and m: "unmarshal_ScanResult m = Some r" "ScanID r = sid"
    and rest: "decode_to sid dms' rs'"
    unfolding decode_to_def by (cases dms; cases rs) auto
  let ?st1 = "st\<lparr>clock := clock st + int d,
              heap := heap st @ [accumulated (ScanID r) [r] (clock st + int d)],
              timers := timers st @
                [\<lparr>cb_scanID = ScanID r, tstate = Armed (clock st + int d + resultTimeout)\<rparr>],
              scanAggregators := (scanAggregators st)(ScanID r \<mapsto> length (heap st))\<rparr>"
  have 1: "run (arrive (d, m)) st = Some ?st1"
    using idle fresh m by (intro arrive_new) auto
  have 2: "run (concat (map arrive dms')) ?st1 =
           Some (?st1\<lparr>clock := clock ?st1 + elapsed dms',
                    heap := (heap ?st1)[length (heap st) := (heap ?st1 ! length (heap st))
                    \<lparr>results := results (heap ?st1 ! length (heap st)) @ rs',
                     resultCount := resultCount (heap ?st1 ! length (heap st)) + int (length rs')\<rparr>]\<rparr>)"
    using lt idle m dms by (intro arrive_many[OF rest]) (auto simp: accumulated_def)
  have "run (concat (map arrive dms)) st = run (concat (map arrive dms')) ?st1"
    by (simp add: dms run_append 1)
  also note 2
  also have "Some (?st1\<lparr>clock := clock ?st1 + elapsed dms',
                    heap := (heap ?st1)[length (heap st) := (heap ?st1 ! length (heap st))
                    \<lparr>results := results (heap ?st1 ! length (heap st)) @ rs',
                     resultCount := resultCount (heap ?st1 ! length (heap st)) + int (length rs')\<rparr>]\<rparr>)
     = Some (st\<lparr>clock := clock st + elapsed dms,
            heap := heap st @ [accumulated sid rs (clock st + first_delay dms)],
            timers := timers st @
              [\<lparr>cb_scanID = sid, tstate = Armed (clock st + first_delay dms + resultTimeout)\<rparr>],
            scanAggregators := (scanAggregators st)(sid \<mapsto> length (heap st))\<rparr>)"
    using m by (simp add: dms rs accumulated_def elapsed_def first_delay_def add.assoc)
  finally show ?thesis .
qed

text \<open>The threshold path: \<open>maxResultsWait\<close> results for a scan id without an aggregate.\<close>

lemma run_threshold:
  assumes dec: "decode_to sid dms rs"
    and len: "int (length dms) = maxResultsWait"
    and idle: "result_handler st = R_idle" and fresh: "scanAggregators st sid = None"
    and lens: "length (timers st) = length (heap st)"
  shows "run (concat (map arrive dms) @ [Result_Report]) st =
     Some (st\<lparr>clock := clock st + elapsed dms,
            heap := heap st @ [accumulated sid rs (clock st + first_delay dms)],
            timers := timers st @ [\<lparr>cb_scanID = sid, tstate = Stopped\<rparr>],
            scanAggregators := (scanAggregators st)(sid := None),
            saved := saved st @ [(length (heap st),
               generateReport (clock st + elapsed dms)
                 (accumulated sid rs (clock st + first_delay dms)))]\<rparr>)"
proof -
  from len have "dms \<noteq> []" by (auto simp: maxResultsWait_def)
  then obtain dms' dm where dmsd: "dms = dms' @ [dm]" by (metis rev_exhaust)
  obtain d m where dm: "dm = (d, m)" by (cases dm)
  from dec dmsd dm obtain rs' r where rsd: "rs = rs' @ [r]"
    and pre: "decode_to sid dms' rs'"
    and m: "unmarshal_ScanResult m = Some r" "ScanID r = sid"
    unfolding decode_to_def by (auto simp: list_all2_append1 list_all2_Cons1)
  from len dmsd have ne: "dms' \<noteq> []" and lt: "int (length dms') < maxResultsWait"
    by (auto simp: maxResultsWait_def)
  from pre have l': "length rs' = length dms'"
    unfolding decode_to_def by (simp add: list_all2_lengthD)
  with ne have rne: "rs' \<noteq> []" by auto
  have fd: "first_delay dms = first_delay dms'"
    using ne by (simp add: first_delay_def dmsd)
  have el: "elapsed dms = elapsed dms' + int d"
    by (simp add: elapsed_def dmsd dm)
  let ?a = "length (heap st)"
  let ?t0 = "clock st + first_delay dms'"
  let ?st1 = "st\<lparr>clock := clock st + elapsed dms',
            heap := heap st @ [accumulated sid rs' ?t0],
            timers := timers st @ [\<lparr>cb_scanID = sid, tstate = Armed (?t0 + resultTimeout)\<rparr>],
            scanAggregators := (scanAggregators st)(sid \<mapsto> ?a)\<rparr>"
  have 1: "run (concat (map arrive dms')) st = Some ?st1"
    by (rule accumulate_below_threshold[OF pre ne lt idle fresh])
  have 2: "run (arrive (d, m) @ [Result_Report]) ?st1 =
     Some (?st1\<lparr>clock := clock ?st1 + int d,
              heap := (heap ?st1)[?a := add_result r (heap ?st1 ! ?a)],
              timers := (timers ?st1)[?a := stop_timer (timers ?st1 ! ?a)],
              scanAggregators := (scanAggregators ?st1)(ScanID r := None),
              saved := saved ?st1 @
                [(?a, generateReport (clock ?st1 + int d) (add_result r (heap ?st1 ! ?a)))]\<rparr>)"
    using idle m len dmsd l' by (intro arrive_threshold) (auto simp: accumulated_def)
  have "run (concat (map arrive dms) @ [Result_Report]) st
      = run (arrive (d, m) @ [Result_Report]) ?st1"
    by (simp add: dmsd dm run_append 1)
  also note 2
  also have "Some (?st1\<lparr>clock := clock ?st1 + int d,
              heap := (heap ?st1)[?a := add_result r (heap ?st1 ! ?a)],
              timers := (timers ?st1)[?a := stop_timer (timers ?st1 ! ?a)],
              scanAggregators := (scanAggregators ?st1)(ScanID r := None),
              saved := saved ?st1 @
                [(?a, generateReport (clock ?st1 + int d) (add_result r (heap ?st1 ! ?a)))]\<rparr>)
     = Some (st\<lparr>clock := clock st + elapsed dms,
            heap := heap st @ [accumulated sid rs (clock st + first_delay dms)],
            timers := timers st @ [\<lparr>cb_scanID = sid, tstate = Stopped\<rparr>],
            scanAggregators := (scanAggregators st)(sid := None),
            saved := saved st @ [(?a,
               generateReport (clock st + elapsed dms)
                 (accumulated sid rs (clock st + first_delay dms)))]\<rparr>)"
    using m rne
    by (simp add: lens rsd fd el add_result_def stop_timer_def accumulated_def
        list_update_append nth_append ac_simps)
  finally show ?thesis .
qed

text \<open>The timer path.\<close>

lemma timer_finalizes:
  assumes "a < length (timers st)" "tstate (timers st ! a) = Armed e" "e \<le> clock st + int d"
    and "scanAggregators st (cb_scanID (timers st ! a)) = Some agg"
  shows "run [Tick d, Timer_Fire a, Timer_Check a, Timer_Report a] st =
     Some (st\<lparr>clock := clock st + int d,
              timers := (timers st)[a := (timers st ! a)\<lparr>tstate := Callback CB_done\<rparr>],
              scanAggregators := (scanAggregators st)(cb_scanID (timers st ! a) := None),
              saved := saved st @ [(agg, generateReport (clock st + int d) (heap st ! agg))]\<rparr>)"
  using assms
  by (simp add: timer_fire_def timer_check_def timer_report_def)

lemma run_timeout:
  assumes dec: "decode_to sid dms rs"
    and ne: "dms \<noteq> []" and lt: "int (length dms) < maxResultsWait"
    and idle: "result_handler st = R_idle" and fresh: "scanAggregators st sid = None"
    and lens: "length (timers st) = length (heap st)"
    and due: "first_delay dms + resultTimeout \<le> elapsed dms + int d"
  shows "run (concat (map arrive dms) @
            [Tick d, Timer_Fire (length (heap st)),
             Timer_Check (length (heap st)), Timer_Report (length (heap st))]) st =
     Some (st\<lparr>clock := clock st + elapsed dms + int d,
            heap := heap st @ [accumulated sid rs (clock st + first_delay dms)],
            timers := timers st @ [\<lparr>cb_scanID = sid, tstate = Callback CB_done\<rparr>],
            scanAggregators := (scanAggregators st)(sid := None),
            saved := saved st @ [(length (heap st),
               generateReport (clock st + elapsed dms + int d)
                 (accumulated sid rs (clock st + first_delay dms)))]\<rparr>)"
proof -
  let ?a = "length (heap st)"
  let ?t0 = "clock st + first_delay dms"
  let ?st1 = "st\<lparr>clock := clock st + elapsed dms,
            heap := heap st @ [accumulated sid rs ?t0],
            timers := timers st @ [\<lparr>cb_scanID = sid, tstate = Armed (?t0 + resultTimeout)\<rparr>],
            scanAggregators := (scanAggregators st)(sid \<mapsto> ?a)\<rparr>"
  have 1: "run (concat (map arrive dms)) st = Some ?st1"
    by (rule accumulate_below_threshold[OF dec ne lt idle fresh])
  have 2: "run [Tick d, Timer_Fire ?a, Timer_Check ?a, Timer_Report ?a] ?st1 =
     Some (?st1\<lparr>clock := clock ?st1 + int d,
              timers := (timers ?st1)[?a := (timers ?st1 ! ?a)\<lparr>tstate := Callback CB_done\<rparr>],
              scanAggregators := (scanAggregators ?st1)(cb_scanID (timers ?st1 ! ?a) := None),
              saved := saved ?st1 @ [(?a, generateReport (clock ?st1 + int d) (heap ?st1 ! ?a))]\<rparr>)"
    using due
    by (intro timer_finalizes[where e = "?t0 + resultTimeout"]) (simp_all add: lens nth_append)
  have "run (concat (map arrive dms) @ [Tick d, Timer_Fire ?a, Timer_Check ?a, Timer_Report ?a]) st
      = run [Tick d, Timer_Fire ?a, Timer_Check ?a, Timer_Report ?a] ?st1"
    by (simp only: run_append 1 option.case)
  also note 2
  also have "Some (?st1\<lparr>clock := clock ?st1 + int d,
              timers := (timers ?st1)[?a := (timers ?st1 ! ?a)\<lparr>tstate := Callback CB_done\<rparr>],
              scanAggregators := (scanAggregators ?st1)(cb_scanID (timers ?st1 ! ?a) := None),
              saved := saved ?st1 @ [(?a, generateReport (clock ?st1 + int d) (heap ?st1 ! ?a))]\<rparr>)
    = Some (st\<lparr>clock := clock st + elapsed dms + int d,
            heap := heap st @ [accumulated sid rs (clock st + first_delay dms)],
            timers := timers st @ [\<lparr>cb_scanID = sid, tstate = Callback CB_done\<rparr>],
            scanAggregators := (scanAggregators st)(sid := None),
            saved := saved st @ [(length (heap st),
               generateReport (clock st + elapsed dms + int d)
                 (accumulated sid rs (clock st + first_delay dms)))]\<rparr>)"
    by (simp add: lens list_update_append nth_append)
  finally show ?thesis .
qed





text \<open>A message used in the examples below, and what it decodes to.\<close>

definition demo_msg :: wire where
  "demo_msg = JObject [(''scan_id'', JString ''s1''), (''target'', JString ''10.0.0.1''),
     (''port'', JInt 80), (''state'', JString ''open'')]"

definition demo_result :: models_ScanResult where
  "demo_result = \<lparr>ID = [], ScanID = ''s1'', Target = ''10.0.0.1'', Port = 80, Protocol = [],
     State = ''open'', Error = []\<rparr>"

lemma demo_decode: "unmarshal_ScanResult demo_msg = Some demo_result"
  by (simp add: demo_msg_def demo_result_def unmarshal_ScanResult_def set_ScanResult_field_def
      zero_ScanResult_def as_string_def as_int_def)

lemma demo_batch:
  "decode_to ''s1'' (replicate n (d, demo_msg)) (replicate n demo_result)"
  unfolding decode_to_def
  by (induction n) (simp_all add: demo_decode, simp add: demo_result_def)

lemma demo_batch_facts:
  "n \<noteq> 0 \<Longrightarrow> first_delay (replicate n (d, demo_msg)) = int d"
  "elapsed (replicate n (d, demo_msg)) = int n * int d"
  by (cases n, simp_all add: first_delay_def elapsed_def sum_list_replicate)


lemma demo_single: "decode_to ''s1'' [(d, demo_msg)] [demo_result]"
  unfolding decode_to_def by (simp add: demo_decode) (simp add: demo_result_def)


section \<open>Threshold and timer (claim C3)\<close>




section \<open>Reporter agent: the race of the two triggers\<close>

text \<open>A label is a \<^emph>\<open>result for\<close> a scan id when it delivers a message that decodes to a
  result of that scan id.\<close>

fun result_for :: "string \<Rightarrow> label \<Rightarrow> bool" where
  "result_for sid (ScanResultMsg msg) =
     (case unmarshal_ScanResult msg of Some result \<Rightarrow> ScanID result = sid | None \<Rightarrow> False)"
| "result_for sid _ = False"

text \<open>Only the delivery of a result for a scan id creates a registry entry for it.\<close>

lemma absent_step:
  assumes "step l st = Some st'" "scanAggregators st sid = None" "\<not> result_for sid l"
  shows "scanAggregators st' sid = None"
proof (cases l)
  case (ScanResultMsg msg)
  with assms show ?thesis
    by (auto simp: scan_result_msg_def Let_def split: if_splits option.splits)
next
  case Result_Append
  with assms show ?thesis by (auto simp: result_append_def Let_def split: result_pc.splits)
next
  case Result_Check
  with assms show ?thesis
    by (auto simp: result_check_def split: result_pc.splits if_splits option.splits)
next
  case Result_Report
  with assms show ?thesis by (auto simp: result_report_def split: result_pc.splits)
next
  case (Timer_Fire b)
  with assms show ?thesis
    by (auto simp: timer_fire_def split: if_splits timer_state.splits)
next
  case (Timer_Check b)
  with assms show ?thesis
    by (auto simp: timer_check_def split: if_splits option.splits)
next
  case (Timer_Report b)
  with assms show ?thesis
    by (auto simp: timer_report_def split: if_splits timer_state.splits callback_pc.splits)
next
  case (ServiceMsg msg)
  with assms show ?thesis
    by (auto simp: service_msg_def split: if_splits option.splits)
next
  case Service_Append
  with assms show ?thesis by (auto simp: service_append_def Let_def split: service_pc.splits)
next
  case (Shutdown order)
  with assms(1) have "st' = (shutdown_loop order st)\<lparr>shut_down := True\<rparr>"
    by (simp add: shutdown_def split: if_splits)
  with assms(2-) Shutdown show ?thesis by (simp add: shutdown_loop_fields)
next
  case (Tick d)
  with assms show ?thesis by auto
qed

text \<open>A callback that waits for the registry lock goes on waiting until its own check.\<close>

lemma stop_timer_keeps_waiting:
  "tstate (ts ! a) = Callback CB_waiting \<Longrightarrow>
   tstate (ts[k := stop_timer (ts ! k)] ! a) = Callback CB_waiting
   \<and> cb_scanID (ts[k := stop_timer (ts ! k)] ! a) = cb_scanID (ts ! a)"
  by (cases "k = a") (simp_all add: stop_timer_def)

lemma waiting_step:
  assumes "step l st = Some st'" "k < length (timers st)"
    "tstate (timers st ! k) = Callback CB_waiting" "l \<noteq> Timer_Check k"
  shows "k < length (timers st') \<and> tstate (timers st' ! k) = Callback CB_waiting
     \<and> cb_scanID (timers st' ! k) = cb_scanID (timers st ! k)"
proof (cases l)
  case (ScanResultMsg msg)
  with assms show ?thesis
    by (auto simp: scan_result_msg_def Let_def nth_append split: if_splits option.splits)
next
  case Result_Append
  with assms show ?thesis by (auto simp: result_append_def Let_def split: result_pc.splits)
next
  case Result_Check
  with assms show ?thesis
    by (auto simp: result_check_def stop_timer_keeps_waiting
        split: result_pc.splits if_splits option.splits)
next
  case Result_Report
  with assms show ?thesis by (auto simp: result_report_def split: result_pc.splits)
next
  case (Timer_Fire b)
  with assms show ?thesis
    by (auto simp: timer_fire_def nth_list_update split: if_splits timer_state.splits)
next
  case (Timer_Check b)
  with assms show ?thesis
    by (auto simp: timer_check_def nth_list_update split: if_splits option.splits)
next
  case (Timer_Report b)
  with assms show ?thesis
    by (auto simp: timer_report_def nth_list_update
        split: if_splits timer_state.splits callback_pc.splits)
next
  case (ServiceMsg msg)
  with assms show ?thesis
    by (auto simp: service_msg_def split: if_splits option.splits)
next
  case Service_Append
  with assms show ?thesis by (auto simp: service_append_def Let_def split: service_pc.splits)
next
  case (Shutdown order)
  with assms have st': "st' = (shutdown_loop order st)\<lparr>shut_down := True\<rparr>"
    by (simp add: shutdown_def split: if_splits)
  from assms(3) have "stop_timer (timers st ! k) = timers st ! k" by (simp add: stop_timer_def)
  with shutdown_loop_timers[OF assms(2), of order] assms(2,3) show ?thesis
    unfolding st' by (simp add: shutdown_loop_fields)
next
  case (Tick d)
  with assms show ?thesis by auto
qed

lemma callback_loses_run:
  "run ls st = Some st' \<Longrightarrow> k < length (timers st) \<Longrightarrow>
   tstate (timers st ! k) = Callback CB_waiting \<Longrightarrow>
   scanAggregators st (cb_scanID (timers st ! k)) = None \<Longrightarrow> Timer_Check k \<notin> set ls \<Longrightarrow>
   \<not> list_ex (result_for (cb_scanID (timers st ! k))) ls \<Longrightarrow>
   k < length (timers st') \<and> tstate (timers st' ! k) = Callback CB_waiting
   \<and> scanAggregators st' (cb_scanID (timers st' ! k)) = None"
proof (induction ls arbitrary: st)
  case Nil
  then show ?case by simp
next
  case (Cons l ls)
  from Cons.prems(1) obtain st1 where 1: "step l st = Some st1" and 2: "run ls st1 = Some st'"
    by (auto split: option.splits)
  from Cons.prems(5) have l: "l \<noteq> Timer_Check k" and ls: "Timer_Check k \<notin> set ls" by auto
  from Cons.prems(6) have n: "\<not> result_for (cb_scanID (timers st ! k)) l"
    and ns: "\<not> list_ex (result_for (cb_scanID (timers st ! k))) ls" by auto
  from waiting_step[OF 1 Cons.prems(2,3) l]
  have w: "k < length (timers st1)" "tstate (timers st1 ! k) = Callback CB_waiting"
    and cb: "cb_scanID (timers st1 ! k) = cb_scanID (timers st ! k)" by simp_all
  from absent_step[OF 1 Cons.prems(4) n] cb
  have a: "scanAggregators st1 (cb_scanID (timers st1 ! k)) = None" by simp
  from Cons.IH[OF 2 w a ls] ns cb show ?case by simp
qed

text \<open>The result handler is in progress with result \<open>r\<close>: it has yet to append it, or it
  has appended it and has yet to check the threshold.\<close>

fun handling :: "result_pc \<Rightarrow> models_ScanResult \<Rightarrow> bool" where
  "handling (R_append aggregator result) r = (result = r)"
| "handling (R_check cnt result) r = (result = r)"
| "handling _ r = False"

lemma handling_step:
  assumes "step l st = Some st'" "handling (result_handler st) r" "l \<noteq> Result_Check"
  shows "handling (result_handler st') r \<and> \<not> result_for sid l"
proof (cases l)
  case (ScanResultMsg msg)
  with assms show ?thesis by (cases "result_handler st") (auto simp: scan_result_msg_def)
next
  case Result_Append
  with assms show ?thesis by (auto simp: result_append_def Let_def split: result_pc.splits)
next
  case Result_Report
  with assms show ?thesis by (auto simp: result_report_def split: result_pc.splits)
next
  case (Timer_Fire b)
  with assms show ?thesis
    by (auto simp: timer_fire_def split: if_splits timer_state.splits)
next
  case (Timer_Check b)
  with assms show ?thesis
    by (auto simp: timer_check_def split: if_splits option.splits)
next
  case (Timer_Report b)
  with assms show ?thesis
    by (auto simp: timer_report_def split: if_splits timer_state.splits callback_pc.splits)
next
  case (ServiceMsg msg)
  with assms show ?thesis
    by (auto simp: service_msg_def split: if_splits option.splits)
next
  case Service_Append
  with assms show ?thesis by (auto simp: service_append_def Let_def split: service_pc.splits)
next
  case (Shutdown order)
  with assms(1) have "st' = (shutdown_loop order st)\<lparr>shut_down := True\<rparr>"
    by (simp add: shutdown_def split: if_splits)
  with assms(2-) Shutdown show ?thesis by (simp add: shutdown_loop_fields)
next
  case (Tick d)
  with assms show ?thesis by auto
next
  case Result_Check
  with assms show ?thesis by simp
qed

lemma handling_run:
  "run ls st = Some st' \<Longrightarrow> handling (result_handler st) r \<Longrightarrow>
   scanAggregators st (ScanID r) = None \<Longrightarrow> Result_Check \<notin> set ls \<Longrightarrow>
   handling (result_handler st') r \<and> scanAggregators st' (ScanID r) = None"
proof (induction ls arbitrary: st)
  case Nil
  then show ?case by simp
next
  case (Cons l ls)
  from Cons.prems(1) obtain st1 where 1: "step l st = Some st1" and 2: "run ls st1 = Some st'"
    by (auto split: option.splits)
  from Cons.prems(4) have l: "l \<noteq> Result_Check" and ls: "Result_Check \<notin> set ls" by auto
  from handling_step[OF 1 Cons.prems(2) l, of "ScanID r"]
  have c: "handling (result_handler st1) r" and n: "\<not> result_for (ScanID r) l" by simp_all
  from absent_step[OF 1 Cons.prems(3) n] have "scanAggregators st1 (ScanID r) = None" .
  from Cons.IH[OF 2 c this ls] show ?case .
qed

lemma timer_check_removes:
  "timer_check k st = Some st' \<Longrightarrow>
   scanAggregators st' (cb_scanID (timers st ! k)) = None \<and> result_handler st' = result_handler st"
  by (auto simp: timer_check_def split: if_splits option.splits)

lemma result_check_removes:
  assumes "result_check st = Some st'" "result_handler st = R_check cnt r" "maxResultsWait \<le> cnt"
  shows "scanAggregators st' (ScanID r) = None"
  using assms by (auto simp: result_check_def split: option.splits)

lemma result_check_keeps_waiting:
  assumes "result_check st = Some st'" "k < length (timers st)"
    "tstate (timers st ! k) = Callback CB_waiting"
  shows "k < length (timers st') \<and> tstate (timers st' ! k) = Callback CB_waiting
     \<and> cb_scanID (timers st' ! k) = cb_scanID (timers st ! k)"
  using waiting_step[of Result_Check st st' k] assms by simp

subsection \<open>How often an aggregate is reported\<close>

lemma count_list_mset: "count_list xs x = count (mset xs) x"
  by (induction xs) simp_all

lemma distinct_count_list: "distinct xs \<Longrightarrow> count_list xs x \<le> 1"
  by (simp add: count_list_mset distinct_count_atmost_1)

lemma count_list_pos: "x \<in> set xs \<Longrightarrow> 1 \<le> count_list xs x"
  by (induction xs) auto

lemma reported_at_most:
  assumes "reachable st"
  shows "count_list (map fst (saved st)) a \<le> (if shut_down st then 2 else 1)"
proof -
  from reachable_inv[OF assms] obtain sv fin where i: "inv_for st sv fin"
    unfolding inv_def by blast
  then have m: "mset (map fst (saved st)) = mset sv + mset fin"
    and d: "distinct sv" "distinct fin"
    and f: "shut_down st \<or> fin = []"
    unfolding inv_for_def tokens_ok_def by blast+
  have c: "count_list sv a \<le> 1" "count_list fin a \<le> 1"
    by (rule distinct_count_list[OF d(1)], rule distinct_count_list[OF d(2)])
  have "count_list (map fst (saved st)) a = count (mset (map fst (saved st))) a"
    by (rule count_list_mset)
  also have "\<dots> = count (mset sv + mset fin) a" by (simp only: m)
  also have "\<dots> = count_list sv a + count_list fin a" by (simp add: count_list_mset)
  finally have "count_list (map fst (saved st)) a = count_list sv a + count_list fin a" .
  with c f show ?thesis by auto
qed

text \<open>
  The agent is \<^emph>\<open>quiescent\<close> when no result handler is in progress and every timer was
  stopped or has run its callback to the end: nothing is left that could finalize.
\<close>

definition quiescent :: "reporter \<Rightarrow> bool" where
  "quiescent st \<longleftrightarrow>
     result_handler st = R_idle
   \<and> list_all (\<lambda>t. tstate t = Stopped \<or> tstate t = Callback CB_done) (timers st)"

lemma reported_at_least:
  assumes "reachable st" "quiescent st" "a < length (heap st)"
  shows "a \<in> set (map fst (saved st))"
proof -
  from reachable_accounted[OF assms(1)]
  have k: "keys_ok (scanAggregators st) (map scanID (heap st)) (map cb_scanID (timers st))"
    and o: "own_trigger (scanAggregators st) (map tstate (timers st)) (fst ` set (saved st))"
    and n: "nothing_lost (scanAggregators st) (length (heap st)) (map tstate (timers st))
              (result_handler st) (fst ` set (saved st))"
    by (simp_all add: accounted_def)
  from assms(2) have idle: "result_handler st = R_idle"
    and q: "\<And>i. i < length (timers st) \<Longrightarrow>
               tstate (timers st ! i) = Stopped \<or> tstate (timers st ! i) = Callback CB_done"
    by (auto simp: quiescent_def list_all_length)
  have nh: "\<not> holds (map tstate (timers st)) i b" for i b
    using q[of i] by (auto simp: holds_def)
  have np: "\<not> is_pending (map tstate (timers st) ! b)" if "b < length (heap st)" for b
    using q[of b] that keys_lengths[OF k] by auto
  from n assms(3) idle nh
  have "(\<exists>sid. scanAggregators st sid = Some a) \<or> a \<in> fst ` set (saved st)"
    unfolding nothing_lost_def by auto
  then show ?thesis
  proof
    assume "\<exists>sid. scanAggregators st sid = Some a"
    then obtain sid where "scanAggregators st sid = Some a" ..
    with o have "is_pending (map tstate (timers st) ! a) \<or> a \<in> fst ` set (saved st)"
      unfolding own_trigger_def by blast
    with np[OF assms(3)] show ?thesis by simp
  next
    assume "a \<in> fst ` set (saved st)"
    then show ?thesis by simp
  qed
qed

subsection \<open>The reports of a scan id\<close>

lemma generateReport_ScanID: "rep_ScanID (generateReport now g) = scanID g"
  by (simp add: generateReport_def Let_def split: prod.splits)

text \<open>Every saved report was built from an aggregate and carries its scan id.\<close>

definition saved_ids :: "ScanAggregator list \<Rightarrow> (nat \<times> Report) list \<Rightarrow> bool" where
  "saved_ids hp sv \<longleftrightarrow>
     list_all (\<lambda>(a, rep). a < length hp \<and> rep_ScanID rep = scanID (hp ! a)) sv"

lemma ids_heap:
  "saved_ids hp sv \<Longrightarrow> length hp \<le> length hp' \<Longrightarrow>
   \<forall>b < length hp. scanID (hp' ! b) = scanID (hp ! b) \<Longrightarrow> saved_ids hp' sv"
  unfolding saved_ids_def list_all_iff by fastforce

lemma ids_update:
  "saved_ids hp sv \<Longrightarrow> scanID g = scanID (hp ! a) \<Longrightarrow> saved_ids (hp[a := g]) sv"
proof (rule ids_heap)
  assume g: "scanID g = scanID (hp ! a)"
  show "\<forall>b < length hp. scanID (hp[a := g] ! b) = scanID (hp ! b)"
  proof (intro allI impI)
    fix b assume "b < length hp"
    with g show "scanID (hp[a := g] ! b) = scanID (hp ! b)"
      by (cases "a = b") simp_all
  qed
qed simp_all

lemma ids_add:
  "saved_ids hp sv \<Longrightarrow> a < length hp \<Longrightarrow> saved_ids hp (sv @ [(a, generateReport now (hp ! a))])"
  unfolding saved_ids_def by (simp add: generateReport_ScanID)

lemma ids_add_all:
  "saved_ids hp sv \<Longrightarrow> \<forall>a \<in> set as. a < length hp \<Longrightarrow>
   saved_ids hp (sv @ map (\<lambda>a. (a, generateReport now (hp ! a))) as)"
  unfolding saved_ids_def by (auto simp: generateReport_ScanID list_all_iff)

lemma ids_step:
  assumes i: "inv st" and s: "saved_ids (heap st) (saved st)" and t: "step l st = Some st'"
  shows "saved_ids (heap st') (saved st')"
proof -
  from i obtain sv fin where "inv_for st sv fin" unfolding inv_def by blast
  then have tk: "tokens_ok (scanAggregators st) (length (heap st)) (map tstate (timers st))
       (result_handler st) sv"
    by (simp add: inv_for_def)
  show ?thesis
  proof (cases l)
    case (Tick d)
    with s t show ?thesis by auto
  next
    case (ScanResultMsg msg)
    with t have "saved st' = saved st"
      and "heap st' = heap st \<or> (\<exists>g. heap st' = heap st @ [g])"
      by (auto simp: scan_result_msg_def Let_def split: if_splits option.splits)
    with s show ?thesis by (auto intro!: ids_heap[OF s] simp: nth_append)
  next
    case Result_Append
    with s t show ?thesis
      by (auto simp: result_append_def Let_def split: result_pc.splits intro!: ids_update)
  next
    case Result_Check
    with s t show ?thesis
      by (auto simp: result_check_def split: result_pc.splits if_splits option.splits)
  next
    case Result_Report
    with t obtain agg where rh: "result_handler st = R_report agg"
      and st': "st' = st\<lparr>saved := saved st @ [(agg, generateReport (clock st) (heap st ! agg))],
                   result_handler := R_idle\<rparr>"
      by (auto simp: result_report_def split: result_pc.splits)
    from tk rh have "agg < length (heap st)" unfolding tokens_ok_def by blast
    with s show ?thesis unfolding st' by (simp add: ids_add)
  next
    case (Timer_Fire b)
    with s t show ?thesis
      by (auto simp: timer_fire_def split: if_splits timer_state.splits)
  next
    case (Timer_Check b)
    with s t show ?thesis
      by (auto simp: timer_check_def split: if_splits option.splits)
  next
    case (Timer_Report b)
    with t obtain agg where b: "b < length (timers st)"
      and h: "tstate (timers st ! b) = Callback (CB_report agg)"
      and st': "st' = st\<lparr>saved := saved st @ [(agg, generateReport (clock st) (heap st ! agg))],
                      timers := (timers st)[b := (timers st ! b)\<lparr>tstate := Callback CB_done\<rparr>]\<rparr>"
      by (auto simp: timer_report_def split: if_splits timer_state.splits callback_pc.splits)
    from b h have "holds (map tstate (timers st)) b agg" by (simp add: holds_def)
    with tk have "agg < length (heap st)" unfolding tokens_ok_def by blast
    with s show ?thesis unfolding st' by (simp add: ids_add)
  next
    case (ServiceMsg msg)
    with s t show ?thesis
      by (auto simp: service_msg_def split: if_splits option.splits)
  next
    case Service_Append
    with s t show ?thesis
      by (auto simp: service_append_def Let_def split: service_pc.splits intro!: ids_update)
  next
    case (Shutdown order)
    with t have st': "st' = (shutdown_loop order st)\<lparr>shut_down := True\<rparr>"
      and g: "set order = set (filter (is_registered st) [0..<length (heap st)])"
      by (simp_all add: shutdown_def split: if_splits)
    from g have "\<forall>a \<in> set order. a < length (heap st)" by auto
    with s show ?thesis
      unfolding st' by (simp add: shutdown_loop_fields shutdown_loop_saved ids_add_all)
  qed
qed

lemma ids_run:
  "inv st \<Longrightarrow> saved_ids (heap st) (saved st) \<Longrightarrow> run ls st = Some st' \<Longrightarrow>
   saved_ids (heap st') (saved st')"
proof (induction ls arbitrary: st)
  case Nil
  then show ?case by simp
next
  case (Cons l ls)
  from Cons.prems(3) obtain st1 where 1: "step l st = Some st1" and 2: "run ls st1 = Some st'"
    by (auto split: option.splits)
  from Cons.IH[OF inv_step[OF Cons.prems(1) 1] ids_step[OF Cons.prems(1,2) 1] 2] show ?case .
qed

lemma reachable_saved_ids:
  assumes "reachable st"
  shows "saved_ids (heap st) (saved st)"
proof -
  from assms obtain ls where "run ls init = Some st" unfolding reachable_def by blast
  from ids_run[OF inv_init _ this] show ?thesis by (simp add: init_def saved_ids_def)
qed

subsection \<open>The timer of a registered aggregate\<close>

lemma own_timer:
  assumes "reachable st"
  shows "\<forall>sid a. scanAggregators st sid = Some a \<longrightarrow>
           a < length (timers st) \<and> cb_scanID (timers st ! a) = sid"
proof (intro allI impI)
  fix sid a
  assume reg: "scanAggregators st sid = Some a"
  from reachable_accounted[OF assms]
  have k: "keys_ok (scanAggregators st) (map scanID (heap st)) (map cb_scanID (timers st))"
    by (simp add: accounted_def)
  from keys_bound[OF k, of tstate] reg have a: "a < length (timers st)" by simp
  from keys_cb[OF k reg] a show "a < length (timers st) \<and> cb_scanID (timers st ! a) = sid"
    by simp
qed

section \<open>Exactly-once finalization (claim C1)\<close>

text \<open>
  Claim C1 as stated does not hold: the registry keeps no trace of a finalized scan, so a
  result that arrives after its scan was finalized creates a new aggregate, and that
  aggregate is reported in turn. Here 20 results finalize scan \<open>s1\<close> by the threshold, a
  21st result re-creates the aggregate, and its timer reports \<open>s1\<close> a second time.
\<close>

theorem two_reports_for_one_scan_id:
  "\<exists>st. reachable st \<and> \<not> distinct (map (\<lambda>(a, rep). rep_ScanID rep) (saved st))"
proof -
  let ?dms = "replicate 20 (100::nat, demo_msg)"
  let ?rs = "replicate 20 demo_result"
  define st1 where "st1 = init\<lparr>clock := clock init + elapsed ?dms,
            heap := heap init @ [accumulated ''s1'' ?rs (clock init + first_delay ?dms)],
            timers := timers init @ [\<lparr>cb_scanID = ''s1'', tstate = Stopped\<rparr>],
            scanAggregators := (scanAggregators init)(''s1'' := None),
            saved := saved init @ [(length (heap init),
               generateReport (clock init + elapsed ?dms)
                 (accumulated ''s1'' ?rs (clock init + first_delay ?dms)))]\<rparr>"
  have 1: "run (concat (map arrive ?dms) @ [Result_Report]) init = Some st1"
    unfolding st1_def
    by (rule run_threshold[OF demo_batch]) (simp_all add: init_def maxResultsWait_def)
  have r1: "reachable st1" by (rule reachable_run[OF reachable_init 1])
  have p1: "result_handler st1 = R_idle" "scanAggregators st1 ''s1'' = None"
    "length (timers st1) = length (heap st1)"
    "map (\<lambda>(a, rep). rep_ScanID rep) (saved st1) = [''s1'']"
    unfolding st1_def by (simp_all add: init_def generateReport_accumulated)
  let ?one = "[(100::nat, demo_msg)]"
  define st2 where "st2 = st1\<lparr>clock := clock st1 + elapsed ?one + int 30000,
            heap := heap st1 @ [accumulated ''s1'' [demo_result] (clock st1 + first_delay ?one)],
            timers := timers st1 @ [\<lparr>cb_scanID = ''s1'', tstate = Callback CB_done\<rparr>],
            scanAggregators := (scanAggregators st1)(''s1'' := None),
            saved := saved st1 @ [(length (heap st1),
               generateReport (clock st1 + elapsed ?one + int 30000)
                 (accumulated ''s1'' [demo_result] (clock st1 + first_delay ?one)))]\<rparr>"
  have 2: "run (concat (map arrive ?one) @
            [Tick 30000, Timer_Fire (length (heap st1)),
             Timer_Check (length (heap st1)), Timer_Report (length (heap st1))]) st1 = Some st2"
    unfolding st2_def
    by (rule run_timeout[OF demo_single _ _ p1(1,2,3)])
       (simp_all add: maxResultsWait_def resultTimeout_def first_delay_def elapsed_def)
  have r2: "reachable st2" by (rule reachable_run[OF r1 2])
  have "map (\<lambda>(a, rep). rep_ScanID rep) (saved st2) = [''s1'', ''s1'']"
    unfolding st2_def by (simp add: p1(4) generateReport_accumulated)
  then have "\<not> distinct (map (\<lambda>(a, rep). rep_ScanID rep) (saved st2))" by simp
  with r2 show ?thesis by blast
qed

text \<open>
  Claim C1, amended: finalize-and-report is once per aggregate, and the reports of a scan
  id are those of its aggregates. For every reachable state:

  \<^item> no aggregate has been reported more than once, or more than twice once the shutdown
    loop has run (which reports every registered aggregate and removes none);

  \<^item> when the agent is quiescent every aggregate has been reported, so exactly once
    unless the shutdown loop has run;

  \<^item> every saved report was built from an aggregate and carries its scan id;

  \<^item> every registered aggregate is registered under the scan id its own timer looks up,
    and that timer is armed or its callback is waiting for the lock, unless the aggregate
    was reported (by the shutdown loop);

  \<^item> so the timer of a registered aggregate, when it is left to fire once due and its
    callback to run, removes that aggregate and reports it;

  \<^item> if a timer callback for the scan id of the result in progress runs its check first,
    then, whatever happens until the handler's threshold check, the handler finds no
    entry and returns without any other effect;

  \<^item> if the handler runs its threshold check first, with the count at the threshold,
    then a callback for that scan id that was waiting finds no entry at its check and
    ends without any other effect, provided no result for that scan id was delivered in
    between.
\<close>

theorem finalize_once_per_aggregate:
  assumes "reachable st"
  shows "(\<forall>a. count_list (map fst (saved st)) a \<le> (if shut_down st then 2 else 1))
    \<and> (quiescent st \<longrightarrow> (\<forall>a < length (heap st). 1 \<le> count_list (map fst (saved st)) a))
    \<and> list_all (\<lambda>(a, rep). a < length (heap st) \<and> rep_ScanID rep = scanID (heap st ! a))
         (saved st)
    \<and> (\<forall>sid a. scanAggregators st sid = Some a \<longrightarrow>
          a < length (timers st) \<and> cb_scanID (timers st ! a) = sid
          \<and> (is_pending (tstate (timers st ! a)) \<or> 1 \<le> count_list (map fst (saved st)) a))
    \<and> (\<forall>sid a e d. scanAggregators st sid = Some a \<and> tstate (timers st ! a) = Armed e
          \<and> e \<le> clock st + int d \<longrightarrow>
          run [Tick d, Timer_Fire a, Timer_Check a, Timer_Report a] st =
            Some (st\<lparr>clock := clock st + int d,
                     timers := (timers st)[a := (timers st ! a)\<lparr>tstate := Callback CB_done\<rparr>],
                     scanAggregators := (scanAggregators st)(sid := None),
                     saved := saved st @ [(a, generateReport (clock st + int d) (heap st ! a))]\<rparr>))
    \<and> (\<forall>sid a. scanAggregators st sid = Some a \<and> tstate (timers st ! a) = Callback CB_waiting \<longrightarrow>
          run [Timer_Check a, Timer_Report a] st =
            Some (st\<lparr>timers := (timers st)[a := (timers st ! a)\<lparr>tstate := Callback CB_done\<rparr>],
                     scanAggregators := (scanAggregators st)(sid := None),
                     saved := saved st @ [(a, generateReport (clock st) (heap st ! a))]\<rparr>))
    \<and> (\<forall>k r st1 ls st2.
          handling (result_handler st) r \<and> cb_scanID (timers st ! k) = ScanID r
          \<and> timer_check k st = Some st1 \<and> run ls st1 = Some st2 \<and> Result_Check \<notin> set ls \<longrightarrow>
          handling (result_handler st2) r \<and> scanAggregators st2 (ScanID r) = None
          \<and> (\<forall>cnt. result_handler st2 = R_check cnt r \<longrightarrow>
                result_check st2 = Some (st2\<lparr>result_handler := R_idle\<rparr>)))
    \<and> (\<forall>k cnt r st1 ls st2.
          k < length (timers st) \<and> tstate (timers st ! k) = Callback CB_waiting
          \<and> cb_scanID (timers st ! k) = ScanID r
          \<and> result_handler st = R_check cnt r \<and> maxResultsWait \<le> cnt
          \<and> result_check st = Some st1 \<and> run ls st1 = Some st2
          \<and> Timer_Check k \<notin> set ls \<and> \<not> list_ex (result_for (ScanID r)) ls \<longrightarrow>
          timer_check k st2 =
            Some (st2\<lparr>timers := (timers st2)[k := (timers st2 ! k)\<lparr>tstate := Callback CB_done\<rparr>]\<rparr>))"
proof (intro conjI allI impI)
  fix a
  show "count_list (map fst (saved st)) a \<le> (if shut_down st then 2 else 1)"
    by (rule reported_at_most[OF assms])
next
  fix a
  assume "quiescent st" "a < length (heap st)"
  from reported_at_least[OF assms this] show "1 \<le> count_list (map fst (saved st)) a"
    by (rule count_list_pos)
next
  show "list_all (\<lambda>(a, rep). a < length (heap st) \<and> rep_ScanID rep = scanID (heap st ! a))
         (saved st)"
    using reachable_saved_ids[OF assms] by (simp add: saved_ids_def)
next
  fix sid a
  assume reg: "scanAggregators st sid = Some a"
  from reachable_accounted[OF assms]
  have k: "keys_ok (scanAggregators st) (map scanID (heap st)) (map cb_scanID (timers st))"
    and o: "own_trigger (scanAggregators st) (map tstate (timers st)) (fst ` set (saved st))"
    by (simp_all add: accounted_def)
  from keys_bound[OF k, of tstate] reg have a: "a < length (timers st)" by simp
  from keys_cb[OF k reg] have cb: "map cb_scanID (timers st) ! a = sid" .
  from a show "a < length (timers st)" .
  from a cb show "cb_scanID (timers st ! a) = sid" by simp
  from o reg have "is_pending (map tstate (timers st) ! a) \<or> a \<in> fst ` set (saved st)"
    unfolding own_trigger_def by blast
  with a show "is_pending (tstate (timers st ! a)) \<or> 1 \<le> count_list (map fst (saved st)) a"
    using count_list_pos[of a "map fst (saved st)"] by auto
next
  fix sid a e d
  assume h: "scanAggregators st sid = Some a \<and> tstate (timers st ! a) = Armed e
          \<and> e \<le> clock st + int d"
  from own_timer[OF assms] h have "a < length (timers st)" "cb_scanID (timers st ! a) = sid"
    by blast+
  with h show "run [Tick d, Timer_Fire a, Timer_Check a, Timer_Report a] st =
            Some (st\<lparr>clock := clock st + int d,
                     timers := (timers st)[a := (timers st ! a)\<lparr>tstate := Callback CB_done\<rparr>],
                     scanAggregators := (scanAggregators st)(sid := None),
                     saved := saved st @ [(a, generateReport (clock st + int d) (heap st ! a))]\<rparr>)"
    using timer_finalizes[of a st e d a] by simp
next
  fix sid a
  assume h: "scanAggregators st sid = Some a \<and> tstate (timers st ! a) = Callback CB_waiting"
  from own_timer[OF assms] h have "a < length (timers st)" "cb_scanID (timers st ! a) = sid"
    by blast+
  with h show "run [Timer_Check a, Timer_Report a] st =
            Some (st\<lparr>timers := (timers st)[a := (timers st ! a)\<lparr>tstate := Callback CB_done\<rparr>],
                     scanAggregators := (scanAggregators st)(sid := None),
                     saved := saved st @ [(a, generateReport (clock st) (heap st ! a))]\<rparr>)"
    by (simp add: timer_check_def timer_report_def)
next
  fix k r st1 ls st2
  assume h: "handling (result_handler st) r \<and> cb_scanID (timers st ! k) = ScanID r
          \<and> timer_check k st = Some st1 \<and> run ls st1 = Some st2 \<and> Result_Check \<notin> set ls"
  with timer_check_removes[of k st st1]
  have 1: "handling (result_handler st1) r" "scanAggregators st1 (ScanID r) = None" by simp_all
  from h have "run ls st1 = Some st2" "Result_Check \<notin> set ls" by simp_all
  from handling_run[OF this(1) 1 this(2)]
  have 2: "handling (result_handler st2) r" "scanAggregators st2 (ScanID r) = None" by simp_all
  then show "handling (result_handler st2) r" "scanAggregators st2 (ScanID r) = None" .
  fix cnt
  assume "result_handler st2 = R_check cnt r"
  with 2(2) show "result_check st2 = Some (st2\<lparr>result_handler := R_idle\<rparr>)"
    by (simp add: result_check_def)
next
  fix k cnt r st1 ls st2
  assume h: "k < length (timers st) \<and> tstate (timers st ! k) = Callback CB_waiting
          \<and> cb_scanID (timers st ! k) = ScanID r
          \<and> result_handler st = R_check cnt r \<and> maxResultsWait \<le> cnt
          \<and> result_check st = Some st1 \<and> run ls st1 = Some st2
          \<and> Timer_Check k \<notin> set ls \<and> \<not> list_ex (result_for (ScanID r)) ls"
  then have rc: "result_check st = Some st1" and k: "k < length (timers st)"
    and w: "tstate (timers st ! k) = Callback CB_waiting"
    and cb: "cb_scanID (timers st ! k) = ScanID r"
    and rh: "result_handler st = R_check cnt r" and ge: "maxResultsWait \<le> cnt"
    and run: "run ls st1 = Some st2" and nt: "Timer_Check k \<notin> set ls"
    and nr: "\<not> list_ex (result_for (ScanID r)) ls"
    by simp_all
  from result_check_keeps_waiting[OF rc k w] cb
  have 1: "k < length (timers st1)" "tstate (timers st1 ! k) = Callback CB_waiting"
    and cb1: "cb_scanID (timers st1 ! k) = ScanID r" by simp_all
  from result_check_removes[OF rc rh ge] cb1
  have 2: "scanAggregators st1 (cb_scanID (timers st1 ! k)) = None" by simp
  from nr cb1 have nr1: "\<not> list_ex (result_for (cb_scanID (timers st1 ! k))) ls" by simp
  from callback_loses_run[OF run 1 2 nt nr1]
  show "timer_check k st2 =
            Some (st2\<lparr>timers := (timers st2)[k := (timers st2 ! k)\<lparr>tstate := Callback CB_done\<rparr>]\<rparr>)"
    by (simp add: timer_check_def)
qed
text \<open>
  The race as a witness. After 19 results the timer fires and its callback waits for the
  registry lock; the 20th result is delivered and appended, so that both triggers are
  about to check. If the callback checks first and reports, the handler finds no entry
  and returns. If the handler checks first and reports, the callback finds no entry and
  ends; the agent is then quiescent, with one aggregate, reported once.
\<close>

theorem finalize_once_per_aggregate_witness:
  "\<exists>st st1 st2 st1' st2' st3'.
     reachable st \<and> result_handler st = R_check 20 demo_result
     \<and> tstate (timers st ! 0) = Callback CB_waiting \<and> scanAggregators st ''s1'' = Some 0
     \<and> timer_check 0 st = Some st1 \<and> run [Timer_Report 0] st1 = Some st2
     \<and> map fst (saved st2) = [0]
     \<and> result_check st2 = Some (st2\<lparr>result_handler := R_idle\<rparr>)
     \<and> result_check st = Some st1' \<and> run [Result_Report] st1' = Some st2'
     \<and> map fst (saved st2') = [0]
     \<and> timer_check 0 st2' = Some st3'
     \<and> st3' = st2'\<lparr>timers := (timers st2')[0 := (timers st2' ! 0)\<lparr>tstate := Callback CB_done\<rparr>]\<rparr>
     \<and> reachable st3' \<and> quiescent st3' \<and> \<not> shut_down st3' \<and> length (heap st3') = 1
     \<and> count_list (map fst (saved st3')) 0 = 1
     \<and> map (\<lambda>(a, rep). rep_ScanID rep) (saved st3') = [scanID (heap st3' ! 0)]"
proof -
  let ?dms = "replicate 19 (0::nat, demo_msg)"
  define rs where "rs = replicate 19 demo_result"
  define g where "g = add_result demo_result (accumulated ''s1'' rs 0)"
  define st0 where "st0 = init\<lparr>clock := clock init + elapsed ?dms,
            heap := heap init @ [accumulated ''s1'' rs (clock init + first_delay ?dms)],
            timers := timers init @
              [\<lparr>cb_scanID = ''s1'', tstate = Armed (clock init + first_delay ?dms + resultTimeout)\<rparr>],
            scanAggregators := (scanAggregators init)(''s1'' \<mapsto> length (heap init))\<rparr>"
  have 0: "run (concat (map arrive ?dms)) init = Some st0"
    unfolding st0_def rs_def
    by (rule accumulate_below_threshold[OF demo_batch]) (simp_all add: init_def maxResultsWait_def)
  have r0: "reachable st0" by (rule reachable_run[OF reachable_init 0])
  define st where "st = init\<lparr>clock := 30000, heap := [g],
      timers := [\<lparr>cb_scanID = ''s1'', tstate = Callback CB_waiting\<rparr>],
      scanAggregators := (scanAggregators init)(''s1'' \<mapsto> 0),
      result_handler := R_check 20 demo_result\<rparr>"
  have cnt: "resultCount g = 20" "scanID g = ''s1''"
    by (simp_all add: g_def add_result_def accumulated_def rs_def)
  have s1: "ScanID demo_result = ''s1''" by (simp add: demo_result_def)
  have "run [Tick 30000, Timer_Fire 0, ScanResultMsg demo_msg, Result_Append] st0 = Some st"
    unfolding st_def st0_def g_def
    by (simp add: timer_fire_def scan_result_msg_def result_append_def demo_decode s1 init_def
        resultTimeout_def demo_batch_facts add_result_def Let_def)
       (simp add: accumulated_def rs_def)
  then have r: "reachable st" by (rule reachable_run[OF r0])
  have p: "result_handler st = R_check 20 demo_result" "0 < length (timers st)"
    "tstate (timers st ! 0) = Callback CB_waiting" "scanAggregators st ''s1'' = Some 0"
    "cb_scanID (timers st ! 0) = ScanID demo_result"
    by (simp_all add: st_def s1)
  note fin = finalize_once_per_aggregate[OF r]
  define st1 where "st1 = st\<lparr>timers := [\<lparr>cb_scanID = ''s1'', tstate = Callback (CB_report 0)\<rparr>],
      scanAggregators := (scanAggregators st)(''s1'' := None)\<rparr>"
  define st2 where "st2 = st1\<lparr>saved := [(0, generateReport 30000 g)],
      timers := [\<lparr>cb_scanID = ''s1'', tstate = Callback CB_done\<rparr>]\<rparr>"
  have a1: "timer_check 0 st = Some st1"
    unfolding st1_def st_def by (simp add: timer_check_def)
  have a2: "run [Timer_Report 0] st1 = Some st2"
    unfolding st2_def st1_def st_def by (simp add: timer_report_def init_def)
  have a3: "map fst (saved st2) = [0]" "result_handler st2 = R_check 20 demo_result"
    unfolding st2_def st1_def st_def by simp_all
  have "handling (result_handler st) demo_result \<and> cb_scanID (timers st ! 0) = ScanID demo_result
      \<and> timer_check 0 st = Some st1 \<and> run [Timer_Report 0] st1 = Some st2
      \<and> Result_Check \<notin> set [Timer_Report 0]"
    using p a1 a2 by simp
  from fin[THEN conjunct2, THEN conjunct2, THEN conjunct2, THEN conjunct2, THEN conjunct2,
      THEN conjunct2, THEN conjunct1, rule_format, OF this]
  have "\<forall>cnt. result_handler st2 = R_check cnt demo_result \<longrightarrow>
                result_check st2 = Some (st2\<lparr>result_handler := R_idle\<rparr>)"
    by (elim conjE)
  with a3(2) have a4: "result_check st2 = Some (st2\<lparr>result_handler := R_idle\<rparr>)" by blast
  define st1' where "st1' = st\<lparr>scanAggregators := (scanAggregators st)(''s1'' := None),
      result_handler := R_report 0\<rparr>"
  define st2' where "st2' = st1'\<lparr>saved := [(0, generateReport 30000 g)],
      result_handler := R_idle\<rparr>"
  define st3' where
    "st3' = st2'\<lparr>timers := (timers st2')[0 := (timers st2' ! 0)\<lparr>tstate := Callback CB_done\<rparr>]\<rparr>"
  have b1: "result_check st = Some st1'"
    unfolding st1'_def st_def
    by (simp add: result_check_def maxResultsWait_def s1 stop_timer_def)
  have b2: "run [Result_Report] st1' = Some st2'"
    unfolding st2'_def st1'_def st_def by (simp add: result_report_def init_def)
  have b3: "map fst (saved st2') = [0]"
    unfolding st2'_def st1'_def st_def by simp
  have "0 < length (timers st) \<and> tstate (timers st ! 0) = Callback CB_waiting
          \<and> cb_scanID (timers st ! 0) = ScanID demo_result
          \<and> result_handler st = R_check 20 demo_result \<and> maxResultsWait \<le> 20
          \<and> result_check st = Some st1' \<and> run [Result_Report] st1' = Some st2'
          \<and> Timer_Check 0 \<notin> set [Result_Report]
          \<and> \<not> list_ex (result_for (ScanID demo_result)) [Result_Report]"
    using p b1 b2 by (simp add: maxResultsWait_def)
  from fin[THEN conjunct2, THEN conjunct2, THEN conjunct2, THEN conjunct2, THEN conjunct2,
      THEN conjunct2, THEN conjunct2, rule_format, OF this]
  have b4: "timer_check 0 st2' = Some st3'" unfolding st3'_def .
  have "run [Result_Check, Result_Report, Timer_Check 0] st = Some st3'"
    using b1 b2 b4 by (auto split: option.splits)
  then have r3: "reachable st3'" by (rule reachable_run[OF r])
  have q: "quiescent st3'" "\<not> shut_down st3'" "length (heap st3') = 1"
    "map (\<lambda>(a, rep). rep_ScanID rep) (saved st3') = [scanID (heap st3' ! 0)]"
    unfolding st3'_def st2'_def st1'_def st_def
    by (simp_all add: quiescent_def init_def generateReport_ScanID)
  note fin3 = finalize_once_per_aggregate[OF r3]
  from fin3[THEN conjunct1] q(2) have "count_list (map fst (saved st3')) 0 \<le> 1" by simp
  moreover from fin3[THEN conjunct2, THEN conjunct1] q(1,3)
  have "1 \<le> count_list (map fst (saved st3')) 0" by simp
  ultimately have c: "count_list (map fst (saved st3')) 0 = 1" by simp
  show ?thesis
    apply (rule exI[of _ st], rule exI[of _ st1], rule exI[of _ st2])
    apply (rule exI[of _ st1'], rule exI[of _ st2'], rule exI[of _ st3'])
    apply (intro conjI r p(1) p(3) p(4) a1 a2 a3(1) a4 b1 b2 b3 b4 r3 q c)
    apply (rule st3'_def)
    done
qed

text \<open>
  The stale callback. As above the handler checks first and reports the first aggregate;
  before the waiting callback of its timer runs its check, a 21st result arrives and
  creates a second aggregate for the scan id. The callback finds that entry, removes it
  and reports the second aggregate, 30 seconds before the timer of that aggregate is
  due.
\<close>

lemma stale_callback_finalizes_new_aggregate:
  "\<exists>st. reachable st \<and> map fst (saved st) = [0, 1]
     \<and> map (\<lambda>(a, rep). (rep_ScanID rep, TotalPorts (rep_Statistics rep))) (saved st)
         = [(''s1'', 20), (''s1'', 1)]
     \<and> map tstate (timers st) = [Callback CB_done, Armed 60000] \<and> clock st = 30000"
proof -
  let ?dms = "replicate 19 (0::nat, demo_msg)"
  define rs where "rs = replicate 19 demo_result"
  define g where "g = add_result demo_result (accumulated ''s1'' rs 0)"
  define st0 where "st0 = init\<lparr>clock := clock init + elapsed ?dms,
            heap := heap init @ [accumulated ''s1'' rs (clock init + first_delay ?dms)],
            timers := timers init @
              [\<lparr>cb_scanID = ''s1'', tstate = Armed (clock init + first_delay ?dms + resultTimeout)\<rparr>],
            scanAggregators := (scanAggregators init)(''s1'' \<mapsto> length (heap init))\<rparr>"
  have 0: "run (concat (map arrive ?dms)) init = Some st0"
    unfolding st0_def rs_def
    by (rule accumulate_below_threshold[OF demo_batch]) (simp_all add: init_def maxResultsWait_def)
  have r0: "reachable st0" by (rule reachable_run[OF reachable_init 0])
  have s1: "ScanID demo_result = ''s1''" by (simp add: demo_result_def)
  define st1 where "st1 = init\<lparr>clock := 30000, heap := [g],
      timers := [\<lparr>cb_scanID = ''s1'', tstate = Callback CB_waiting\<rparr>],
      saved := [(0, generateReport 30000 g)]\<rparr>"
  have "run [Tick 30000, Timer_Fire 0, ScanResultMsg demo_msg, Result_Append, Result_Check,
             Result_Report] st0 = Some st1"
    unfolding st1_def st0_def g_def
    by (simp add: timer_fire_def scan_result_msg_def result_append_def result_check_def
        result_report_def demo_decode s1 init_def resultTimeout_def maxResultsWait_def
        demo_batch_facts add_result_def stop_timer_def Let_def)
       (simp add: accumulated_def rs_def)
  then have r1: "reachable st1" by (rule reachable_run[OF r0])
  define st2 where "st2 = st1\<lparr>heap := [g, accumulated ''s1'' [demo_result] 30000],
      timers := [\<lparr>cb_scanID = ''s1'', tstate = Callback CB_done\<rparr>,
                 \<lparr>cb_scanID = ''s1'', tstate = Armed 60000\<rparr>],
      saved := [(0, generateReport 30000 g),
                (1, generateReport 30000 (accumulated ''s1'' [demo_result] 30000))]\<rparr>"
  have "run (arrive (0, demo_msg) @ [Timer_Check 0, Timer_Report 0]) st1 = Some st2"
    unfolding st2_def st1_def
    by (simp add: arrive_def deliver_def scan_result_msg_def result_append_def result_check_def
        timer_check_def timer_report_def demo_decode s1 init_def resultTimeout_def
        maxResultsWait_def Let_def accumulated_def)
  then have r2: "reachable st2" by (rule reachable_run[OF r1])
  have "TotalPorts (rep_Statistics (generateReport 30000 g)) = 20" "rep_ScanID (generateReport 30000 g) = ''s1''"
    by (simp_all add: generateReport_Statistics generateReport_ScanID g_def add_result_def
        accumulated_def rs_def)
  then have "map fst (saved st2) = [0, 1]"
    "map (\<lambda>(a, rep). (rep_ScanID rep, TotalPorts (rep_Statistics rep))) (saved st2)
         = [(''s1'', 20), (''s1'', 1)]"
    "map tstate (timers st2) = [Callback CB_done, Armed 60000]" "clock st2 = 30000"
    unfolding st2_def st1_def by (simp_all add: generateReport_accumulated)
  with r2 show ?thesis by (intro exI[of _ st2] conjI)
qed

text \<open>
  The shutdown loop. One result is waiting in its aggregate when the timer fires; before
  the callback gets the registry lock the agent is shut down and \<open>Start\<close> reports the
  aggregate, leaving it registered. The callback then finds the entry, removes it and
  reports the same aggregate again.
\<close>

lemma shutdown_reports_registered_again:
  "\<exists>st. reachable st \<and> shut_down st \<and> map fst (saved st) = [0, 0]
     \<and> count_list (map fst (saved st)) 0 = 2"
proof -
  define g where "g = accumulated ''s1'' [demo_result] 0"
  define st where "st = init\<lparr>clock := 30000, heap := [g],
      timers := [\<lparr>cb_scanID = ''s1'', tstate = Callback CB_done\<rparr>],
      saved := [(0, generateReport 30000 g), (0, generateReport 30000 g)],
      shut_down := True\<rparr>"
  have s1: "ScanID demo_result = ''s1''" by (simp add: demo_result_def)
  have "run (arrive (0, demo_msg) @ [Tick 30000, Timer_Fire 0, Shutdown [0], Timer_Check 0,
              Timer_Report 0]) init = Some st"
    unfolding st_def g_def
    by (simp add: arrive_def deliver_def scan_result_msg_def result_append_def result_check_def
        timer_fire_def timer_check_def timer_report_def shutdown_def is_registered_def
        stop_timer_def demo_decode s1 init_def resultTimeout_def maxResultsWait_def Let_def
        accumulated_def)
  then have "reachable st" by (rule reachable_run[OF reachable_init])
  moreover have "shut_down st" "map fst (saved st) = [0, 0]"
    "count_list (map fst (saved st)) 0 = 2"
    by (simp_all add: st_def)
  ultimately show ?thesis by (intro exI[of _ st] conjI)
qed

section \<open>Duplicate delivery (claim C7)\<close>




section \<open>Service records without an aggregate (claim C10)\<close>

text \<open>
  Claim C10. When \<open>handleServiceDetected\<close> decodes a service record whose scan id has no
  entry in the registry (none was created yet, or it was removed at finalization), the
  state after the handler is the state before it: no aggregate is created and nothing is
  modified. Every run that starts with this message therefore continues exactly as the
  run without it, so the record is in no report.
\<close>

theorem service_without_aggregate_discarded:
  assumes "service_handler st = S_idle" and "unmarshal_ServiceInfo msg = Some service"
    and "scanAggregators st (svc_ScanID service) = None"
  shows "step (ServiceMsg msg) st = Some st \<and> (\<forall>ls. run (ServiceMsg msg # ls) st = run ls st)"
  using assms by (simp add: service_msg_def)

definition demo_service_msg :: wire where
  "demo_service_msg = JObject [(''scan_id'', JString ''s9''), (''target'', JString ''10.0.0.1''),
     (''port'', JInt 22), (''service'', JString ''SSH'')]"

lemma demo_service_decode:
  "unmarshal_ServiceInfo demo_service_msg =
     Some \<lparr>svc_ID = [], svc_ScanID = ''s9'', svc_Target = ''10.0.0.1'', svc_Port = 22,
           ServiceName = ''SSH'', svc_Version = [], svc_Banner = []\<rparr>"
  by (simp add: demo_service_msg_def unmarshal_ServiceInfo_def set_ServiceInfo_field_def
      zero_ServiceInfo_def as_string_def as_int_def)

theorem service_without_aggregate_discarded_witness:
  "step (ServiceMsg demo_service_msg) init = Some init
   \<and> run [ServiceMsg demo_service_msg, ScanResultMsg demo_msg] init = run [ScanResultMsg demo_msg] init"
  using service_without_aggregate_discarded[OF _ demo_service_decode, of init]
  by (simp add: init_def)

section \<open>Scanner agent: a single probe (claim C2)\<close>

fun member_names :: "wire \<Rightarrow> string list" where
  "member_names Malformed = []"
| "member_names (JObject kvs) = map fst kvs"

text \<open>
  Claim C2 as stated does not hold: the scanner's result has no state. What it publishes
  has the members \<open>id\<close>, \<open>target\<close>, \<open>port\<close>, \<open>is_open\<close> and \<open>error\<close>; decoded by the
  reporter into the struct of package \<open>models\<close>, the state of a result is the empty
  string whether the port was open, timed out or refused.
\<close>

theorem scan_result_carries_no_state:
  "(\<exists>r. unmarshal_ScanResult (marshal_ScanResult (fst (scanPort ''s1'' ''10.0.0.1'' 80 None))) = Some r
        \<and> State r = [] \<and> State r \<noteq> ''open'')
   \<and> (\<exists>r. unmarshal_ScanResult (marshal_ScanResult
              (fst (scanPort ''s1'' ''10.0.0.1'' 81 (Some (NetError True ''i/o timeout''))))) = Some r
        \<and> State r = [] \<and> State r \<noteq> ''filtered'')
   \<and> (\<exists>r. unmarshal_ScanResult (marshal_ScanResult
              (fst (scanPort ''s1'' ''10.0.0.1'' 82 (Some (OtherError ''connection refused''))))) = Some r
        \<and> State r = [] \<and> State r \<noteq> ''closed'')
   \<and> ''state'' \<notin> set (member_names (marshal_ScanResult (fst (scanPort ''s1'' ''10.0.0.1'' 80 None))))"
  by (simp add: scanPort_def marshal_ScanResult_def unmarshal_ScanResult_def Let_def
      set_ScanResult_field_def zero_ScanResult_def as_string_def as_int_def)

text \<open>
  Claim C2, amended. A successful connect within the deadline of \<open>portTimeout\<close> = 1000 ms
  yields a result with \<open>IsOpen\<close> true and no error tag, and the connection is closed at
  once, the close being the only action after the dial; a connect timeout yields
  \<open>IsOpen\<close> false with the error tag \<open>timeout\<close>; any other connection error yields
  \<open>IsOpen\<close> false with the error tag \<open>connection_refused\<close>. The published message has
  no member named \<open>state\<close>.
\<close>

theorem scanPort_outcomes:
  "scanPort sid tgt port None =
     (\<lparr>sr_ID = sid, sr_Target = tgt, sr_Port = port, IsOpen = True, sr_Error = []\<rparr>,
      [Dial tgt port portTimeout, Close tgt port])
   \<and> scanPort sid tgt port (Some err) =
     (\<lparr>sr_ID = sid, sr_Target = tgt, sr_Port = port, IsOpen = False,
       sr_Error = (if is_net_timeout err then ''timeout'' else ''connection_refused'')\<rparr>,
      [Dial tgt port portTimeout])
   \<and> portTimeout = 1000
   \<and> member_names (marshal_ScanResult (fst (scanPort sid tgt port dialed)))
       = [''id'', ''target'', ''port'', ''is_open''] @ (if dialed = None then [] else [''error''])"
  by (cases dialed) (simp_all add: scanPort_def marshal_ScanResult_def portTimeout_def Let_def)

theorem scanPort_outcomes_witness:
  "fst (scanPort ''s1'' ''10.0.0.1'' 80 None) =
     \<lparr>sr_ID = ''s1'', sr_Target = ''10.0.0.1'', sr_Port = 80, IsOpen = True, sr_Error = []\<rparr>
   \<and> fst (scanPort ''s1'' ''10.0.0.1'' 80 (Some (NetError True ''i/o timeout''))) =
     \<lparr>sr_ID = ''s1'', sr_Target = ''10.0.0.1'', sr_Port = 80, IsOpen = False, sr_Error = ''timeout''\<rparr>
   \<and> fst (scanPort ''s1'' ''10.0.0.1'' 80 (Some (OtherError ''connection refused''))) =
     \<lparr>sr_ID = ''s1'', sr_Target = ''10.0.0.1'', sr_Port = 80, IsOpen = False,
       sr_Error = ''connection_refused''\<rparr>"
  using scanPort_outcomes[of "''s1''" "''10.0.0.1''" 80 "NetError True ''i/o timeout''" None]
    scanPort_outcomes[of "''s1''" "''10.0.0.1''" 80 "OtherError ''connection refused''" None]
  by simp

section \<open>Scanner agent: invariants of the worker pool\<close>

lemma sum_list_map_update:
  fixes f :: "'a \<Rightarrow> 'b::comm_monoid_add"
  shows "i < length xs \<Longrightarrow>
    sum_list (map f (xs[i := y])) + f (xs ! i) = sum_list (map f xs) + f y"
proof (induction xs arbitrary: i)
  case Nil
  then show ?case by simp
next
  case (Cons x xs)
  show ?case
  proof (cases i)
    case 0
    then show ?thesis by (simp add: ac_simps)
  next
    case (Suc j)
    with Cons.prems have "j < length xs" by simp
    from Cons.IH[OF this] Suc show ?thesis by (simp add: ac_simps)
  qed
qed

fun slot :: "task_pc \<Rightarrow> nat" where
  "slot Dialing = 1"
| "slot (HasResult r) = 1"
| "slot Releasing = 1"
| "slot _ = 0"

fun dialing :: "task_pc \<Rightarrow> nat" where
  "dialing Dialing = 1"
| "dialing _ = 0"

fun emitted :: "int \<times> task_pc \<Rightarrow> int multiset" where
  "emitted (p, Releasing) = {#p#}"
| "emitted (p, Done) = {#p#}"
| "emitted (p, _) = {#}"

text \<open>
  The invariant of \<open>scanPorts\<close>: the goroutines are those of the ports; the semaphore
  holds one element per goroutine between its acquire and its release, and never more
  than \<open>maxWorkers\<close>; the ports of the results sent so far are the ports of the goroutines
  that have sent; a result held by a goroutine is for its port; the channel is closed
  only when all goroutines are gone, and the receiving loop ends only on a closed and
  empty channel.
\<close>

definition scan_inv :: "int list \<Rightarrow> scan_state \<Rightarrow> bool" where
  "scan_inv ports st \<longleftrightarrow>
     map fst (tasks st) = ports
   \<and> sem st = sum_list (map (\<lambda>t. slot (snd t)) (tasks st))
   \<and> sem st \<le> maxWorkers
   \<and> mset (map sr_Port (published st @ results_chan st)) = sum_list (map emitted (tasks st))
   \<and> (\<forall>i r. i < length (tasks st) \<and> snd (tasks st ! i) = HasResult r \<longrightarrow> sr_Port r = fst (tasks st ! i))
   \<and> (closed st \<longrightarrow> list_all (\<lambda>t. snd t = Done) (tasks st))
   \<and> (completed st \<longrightarrow> closed st \<and> results_chan st = [])"

lemma sum_list_zero: "(\<And>x. x \<in> set xs \<Longrightarrow> f x = 0) \<Longrightarrow> sum_list (map f xs) = (0::'b::comm_monoid_add)"
  by (induction xs) auto

lemma scan_inv_init: "scan_inv ports (scanPorts_init ports)"
  by (auto simp: scan_inv_def scanPorts_init_def comp_def sum_list_zero)

lemma map_fst_update: "i < length xs \<Longrightarrow> map fst (xs[i := (fst (xs ! i), y)]) = map fst xs"
  by (simp add: map_update list_update_same_conv)

lemma not_done_update:
  "i < length xs \<Longrightarrow> snd (xs ! i) \<noteq> Done \<Longrightarrow> \<not> list_all (\<lambda>t. snd t = Done) xs"
  by (auto simp: list_all_length)

lemma scan_inv_acquire:
  assumes "scan_inv ports st" "scan_step sid tgt (Acquire i) st = Some st'"
  shows "scan_inv ports st'"
proof -
  from assms(2) have i: "i < length (tasks st)" and w: "snd (tasks st ! i) = Waiting"
    and s: "sem st < maxWorkers"
    and st': "st' = st\<lparr>tasks := (tasks st)[i := (fst (tasks st ! i), Dialing)], sem := sem st + 1\<rparr>"
    by (auto split: if_splits)
  have e: "emitted (tasks st ! i) = {#}" using w by (cases "tasks st ! i") auto
  from sum_list_map_update[OF i, of "\<lambda>t. slot (snd t)" "(fst (tasks st ! i), Dialing)"] w
  have 1: "sum_list (map (\<lambda>t. slot (snd t)) ((tasks st)[i := (fst (tasks st ! i), Dialing)]))
      = sum_list (map (\<lambda>t. slot (snd t)) (tasks st)) + 1" by simp
  from sum_list_map_update[OF i, of emitted "(fst (tasks st ! i), Dialing)"] e
  have 2: "sum_list (map emitted ((tasks st)[i := (fst (tasks st ! i), Dialing)]))
      = sum_list (map emitted (tasks st))" by simp
  from not_done_update[OF i] w have nd: "\<not> list_all (\<lambda>t. snd t = Done) (tasks st)" by simp
  from assms(1) i s nd show ?thesis
    unfolding st' scan_inv_def
    by (auto simp: 1 2 map_fst_update nth_list_update)
qed

lemma scan_inv_probe:
  assumes "scan_inv ports st" "scan_step sid tgt (Probe i dialed) st = Some st'"
  shows "scan_inv ports st'"
proof -
  let ?r = "fst (scanPort sid tgt (fst (tasks st ! i)) dialed)"
  from assms(2) have i: "i < length (tasks st)" and w: "snd (tasks st ! i) = Dialing"
    and st': "st' = st\<lparr>tasks := (tasks st)[i := (fst (tasks st ! i), HasResult ?r)]\<rparr>"
    by (auto split: if_splits)
  have e: "emitted (tasks st ! i) = {#}" using w by (cases "tasks st ! i") auto
  have p: "sr_Port ?r = fst (tasks st ! i)"
    by (simp add: scanPort_def Let_def split: option.splits)
  from sum_list_map_update[OF i, of "\<lambda>t. slot (snd t)" "(fst (tasks st ! i), HasResult ?r)"] w
  have 1: "sum_list (map (\<lambda>t. slot (snd t)) ((tasks st)[i := (fst (tasks st ! i), HasResult ?r)]))
      = sum_list (map (\<lambda>t. slot (snd t)) (tasks st))" by simp
  from sum_list_map_update[OF i, of emitted "(fst (tasks st ! i), HasResult ?r)"] e
  have 2: "sum_list (map emitted ((tasks st)[i := (fst (tasks st ! i), HasResult ?r)]))
      = sum_list (map emitted (tasks st))" by simp
  from not_done_update[OF i] w have nd: "\<not> list_all (\<lambda>t. snd t = Done) (tasks st)" by simp
  from assms(1) i nd p show ?thesis
    unfolding st' scan_inv_def
    by (auto simp: 1 2 map_fst_update nth_list_update)
qed

lemma scan_inv_send:
  assumes "scan_inv ports st" "scan_step sid tgt (Send i) st = Some st'"
  shows "scan_inv ports st'"
proof -
  from assms(2) obtain r where i: "i < length (tasks st)" and w: "snd (tasks st ! i) = HasResult r"
    and st': "st' = st\<lparr>tasks := (tasks st)[i := (fst (tasks st ! i), Releasing)],
                      results_chan := results_chan st @ [r]\<rparr>"
    by (auto split: if_splits task_pc.splits)
  have e: "emitted (tasks st ! i) = {#}" using w by (cases "tasks st ! i") auto
  from assms(1) i w have p: "sr_Port r = fst (tasks st ! i)" by (auto simp: scan_inv_def)
  from sum_list_map_update[OF i, of "\<lambda>t. slot (snd t)" "(fst (tasks st ! i), Releasing)"] w
  have 1: "sum_list (map (\<lambda>t. slot (snd t)) ((tasks st)[i := (fst (tasks st ! i), Releasing)]))
      = sum_list (map (\<lambda>t. slot (snd t)) (tasks st))" by simp
  from sum_list_map_update[OF i, of emitted "(fst (tasks st ! i), Releasing)"] e
  have 2: "sum_list (map emitted ((tasks st)[i := (fst (tasks st ! i), Releasing)]))
      = sum_list (map emitted (tasks st)) + {#fst (tasks st ! i)#}" by simp
  from not_done_update[OF i] w have nd: "\<not> list_all (\<lambda>t. snd t = Done) (tasks st)" by simp
  from assms(1) i nd p show ?thesis
    unfolding st' scan_inv_def
    by (auto simp: 1 2 map_fst_update nth_list_update)
qed

lemma scan_inv_release:
  assumes "scan_inv ports st" "scan_step sid tgt (Release i) st = Some st'"
  shows "scan_inv ports st'"
proof -
  from assms(2) have i: "i < length (tasks st)" and w: "snd (tasks st ! i) = Releasing"
    and st': "st' = st\<lparr>tasks := (tasks st)[i := (fst (tasks st ! i), Done)], sem := sem st - 1\<rparr>"
    by (auto split: if_splits)
  have e: "emitted (tasks st ! i) = {#fst (tasks st ! i)#}" using w by (cases "tasks st ! i") auto
  from sum_list_map_update[OF i, of "\<lambda>t. slot (snd t)" "(fst (tasks st ! i), Done)"] w
  have 1: "sum_list (map (\<lambda>t. slot (snd t)) ((tasks st)[i := (fst (tasks st ! i), Done)])) + 1
      = sum_list (map (\<lambda>t. slot (snd t)) (tasks st))" by simp
  from sum_list_map_update[OF i, of emitted "(fst (tasks st ! i), Done)"] e
  have 2: "sum_list (map emitted ((tasks st)[i := (fst (tasks st ! i), Done)]))
      = sum_list (map emitted (tasks st))" by simp
  from not_done_update[OF i] w have nd: "\<not> list_all (\<lambda>t. snd t = Done) (tasks st)" by simp
  from assms(1) i nd 1 show ?thesis
    unfolding st' scan_inv_def
    by (auto simp: 2 map_fst_update nth_list_update)
qed

lemma scan_inv_step:
  assumes "scan_inv ports st" "scan_step sid tgt l st = Some st'"
  shows "scan_inv ports st'"
proof (cases l)
  case Close_results
  with assms show ?thesis by (auto simp: scan_inv_def split: if_splits)
next
  case Publish
  with assms show ?thesis by (auto simp: scan_inv_def split: if_splits list.splits)
next
  case Finish
  with assms show ?thesis by (auto simp: scan_inv_def split: if_splits)
qed (use assms in \<open>auto intro: scan_inv_acquire scan_inv_probe scan_inv_send scan_inv_release\<close>)

lemma scan_inv_run:
  "scan_inv ports st \<Longrightarrow> scan_run sid tgt ls st = Some st' \<Longrightarrow> scan_inv ports st'"
  by (induction ls arbitrary: st) (auto split: option.splits intro: scan_inv_step)

lemma scan_reachable_inv: "scan_reachable sid tgt ports st \<Longrightarrow> scan_inv ports st"
  unfolding scan_reachable_def using scan_inv_run[OF scan_inv_init] by blast
definition holding :: "task_pc \<Rightarrow> bool" where
  "holding pc \<longleftrightarrow> pc = Dialing \<or> (\<exists>r. pc = HasResult r) \<or> pc = Releasing"

lemma slot_holding: "slot pc = (if holding pc then 1 else 0)"
  by (cases pc) (simp_all add: holding_def)

lemma sum_list_indicator:
  "sum_list (map (\<lambda>x. if P x then 1 else 0) xs) = length (filter P xs)"
  by (induction xs) simp_all

lemma sum_slot_filter:
  "sum_list (map (\<lambda>t. slot (snd t)) ts) = length (filter (\<lambda>t. holding (snd t)) ts)"
  by (simp add: slot_holding sum_list_indicator)

lemma dialing_le_holding:
  "length (filter (\<lambda>t. snd t = Dialing) ts) \<le> length (filter (\<lambda>t. holding (snd t)) ts)"
  by (induction ts) (auto simp: holding_def)

section \<open>Bounded parallelism (claim C5)\<close>

text \<open>
  Claim C5. In every state \<open>scanPorts\<close> can reach, for any port list, at most
  \<open>maxWorkers\<close> = 10 goroutines are inside \<open>scanPort\<close>: the semaphore counts exactly the
  goroutines between their acquire and their release, and never exceeds \<open>maxWorkers\<close>; a
  probe step is possible only for a goroutine that holds a slot; and when the semaphore
  is full no goroutine can acquire.
\<close>

theorem at_most_maxWorkers_dialing:
  assumes "scan_reachable sid tgt ports st"
  shows "length (filter (\<lambda>t. snd t = Dialing) (tasks st)) \<le> maxWorkers
    \<and> sem st = length (filter (\<lambda>t. holding (snd t)) (tasks st))
    \<and> sem st \<le> maxWorkers
    \<and> (\<forall>i d. scan_step sid tgt (Probe i d) st \<noteq> None \<longrightarrow> holding (snd (tasks st ! i)))
    \<and> (sem st = maxWorkers \<longrightarrow> (\<forall>i. scan_step sid tgt (Acquire i) st = None))"
proof -
  from scan_reachable_inv[OF assms]
  have s: "sem st = sum_list (map (\<lambda>t. slot (snd t)) (tasks st))" and m: "sem st \<le> maxWorkers"
    by (simp_all add: scan_inv_def)
  from s have h: "sem st = length (filter (\<lambda>t. holding (snd t)) (tasks st))"
    by (simp add: sum_slot_filter)
  from dialing_le_holding[of "tasks st"] h m
  have d: "length (filter (\<lambda>t. snd t = Dialing) (tasks st)) \<le> maxWorkers" by simp
  from d h m show ?thesis by (auto simp: holding_def)
qed

definition eleven_ports :: "int list" where
  "eleven_ports = [21, 22, 23, 25, 80, 110, 443, 445, 3306, 3389, 5432]"

lemma ten_dialing:
  "map_option (\<lambda>st. (sem st, map snd (tasks st)))
     (scan_run ''s1'' ''10.0.0.1'' (map Acquire [0..<10]) (scanPorts_init eleven_ports))
   = Some (10, replicate 10 Dialing @ [Waiting])"
  by code_simp

theorem at_most_maxWorkers_dialing_witness:
  "\<exists>st. scan_reachable ''s1'' ''10.0.0.1'' eleven_ports st
     \<and> length (filter (\<lambda>t. snd t = Dialing) (tasks st)) = 10
     \<and> length (filter (\<lambda>t. snd t = Dialing) (tasks st)) \<le> maxWorkers
     \<and> sem st = maxWorkers
     \<and> snd (tasks st ! 10) = Waiting
     \<and> scan_step ''s1'' ''10.0.0.1'' (Acquire 10) st = None"
proof -
  from ten_dialing obtain st where
    r: "scan_run ''s1'' ''10.0.0.1'' (map Acquire [0..<10]) (scanPorts_init eleven_ports) = Some st"
    and s: "sem st = 10" and t: "map snd (tasks st) = replicate 10 Dialing @ [Waiting]"
    by auto
  from r have re: "scan_reachable ''s1'' ''10.0.0.1'' eleven_ports st"
    unfolding scan_reachable_def by blast
  have "length (filter (\<lambda>t. snd t = Dialing) (tasks st))
      = length (filter (\<lambda>pc. pc = Dialing) (map snd (tasks st)))"
    by (simp add: filter_map comp_def)
  also have "\<dots> = 10" unfolding t by simp
  finally have d: "length (filter (\<lambda>t. snd t = Dialing) (tasks st)) = 10" .
  have "snd (tasks st ! 10) = map snd (tasks st) ! 10"
    using t by (metis length_map nth_map length_append length_replicate list.size(3,4) lessI add.right_neutral add_Suc_right)
  then have w: "snd (tasks st ! 10) = Waiting" unfolding t by (simp add: nth_append)
  from at_most_maxWorkers_dialing[OF re] s d w show ?thesis
    using re by (intro exI[of _ st]) (simp add: maxWorkers_def)
qed

section \<open>Termination and the default port set (claim C8)\<close>

text \<open>Every result in flight or published carries the scan id and the target.\<close>

definition scan_ids :: "string \<Rightarrow> string \<Rightarrow> scan_state \<Rightarrow> bool" where
  "scan_ids sid tgt st \<longleftrightarrow>
     (\<forall>r \<in> set (published st) \<union> set (results_chan st). sr_ID r = sid \<and> sr_Target r = tgt)
   \<and> (\<forall>i r. i < length (tasks st) \<and> snd (tasks st ! i) = HasResult r \<longrightarrow>
         sr_ID r = sid \<and> sr_Target r = tgt)"

lemma scanPort_ids:
  "sr_ID (fst (scanPort sid tgt p d)) = sid" "sr_Target (fst (scanPort sid tgt p d)) = tgt"
  by (simp_all add: scanPort_def Let_def split: option.splits)

lemma scan_ids_step:
  assumes "scan_ids sid tgt st" "scan_step sid tgt l st = Some st'"
  shows "scan_ids sid tgt st'"
proof (cases l)
  case (Acquire i)
  with assms show ?thesis
    by (auto simp: scan_ids_def nth_list_update split: if_splits)
next
  case (Probe i d)
  with assms show ?thesis
    by (auto simp: scan_ids_def nth_list_update scanPort_ids split: if_splits)
next
  case (Send i)
  with assms show ?thesis
    by (auto simp: scan_ids_def nth_list_update split: if_splits task_pc.splits)
next
  case (Release i)
  with assms show ?thesis
    by (auto simp: scan_ids_def nth_list_update split: if_splits)
next
  case Close_results
  with assms show ?thesis by (auto simp: scan_ids_def split: if_splits)
next
  case Publish
  with assms show ?thesis by (auto simp: scan_ids_def split: if_splits list.splits)
next
  case Finish
  with assms show ?thesis by (auto simp: scan_ids_def split: if_splits)
qed

lemma scan_ids_run:
  "scan_ids sid tgt st \<Longrightarrow> scan_run sid tgt ls st = Some st' \<Longrightarrow> scan_ids sid tgt st'"
  by (induction ls arbitrary: st) (auto split: option.splits intro: scan_ids_step)

lemma scan_ids_init: "scan_ids sid tgt (scanPorts_init ports)"
  by (auto simp: scan_ids_def scanPorts_init_def)

text \<open>The number of steps a state has left: per goroutine the acquire, the probe, the send
  with the later receive of its result, and the release; the close of the channel; the end
  of the receiving loop.\<close>

fun remaining :: "task_pc \<Rightarrow> nat" where
  "remaining Waiting = 5"
| "remaining Dialing = 4"
| "remaining (HasResult r) = 3"
| "remaining Releasing = 1"
| "remaining Done = 0"

definition scan_measure :: "scan_state \<Rightarrow> nat" where
  "scan_measure st =
     sum_list (map (\<lambda>t. remaining (snd t)) (tasks st)) + length (results_chan st)
       + (if closed st then 0 else 1) + (if completed st then 0 else 1)"

lemma scan_measure_step:
  assumes "scan_step sid tgt l st = Some st'"
  shows "scan_measure st = Suc (scan_measure st')"
proof (cases l)
  case (Acquire i)
  with assms have i: "i < length (tasks st)" and w: "snd (tasks st ! i) = Waiting"
    and st': "st' = st\<lparr>tasks := (tasks st)[i := (fst (tasks st ! i), Dialing)], sem := sem st + 1\<rparr>"
    by (auto split: if_splits)
  from sum_list_map_update[OF i, of "\<lambda>t. remaining (snd t)" "(fst (tasks st ! i), Dialing)"] w
  show ?thesis unfolding st' scan_measure_def by simp
next
  case (Probe i d)
  let ?r = "fst (scanPort sid tgt (fst (tasks st ! i)) d)"
  from Probe assms have i: "i < length (tasks st)" and w: "snd (tasks st ! i) = Dialing"
    and st': "st' = st\<lparr>tasks := (tasks st)[i := (fst (tasks st ! i), HasResult ?r)]\<rparr>"
    by (auto split: if_splits)
  from sum_list_map_update[OF i, of "\<lambda>t. remaining (snd t)" "(fst (tasks st ! i), HasResult ?r)"] w
  show ?thesis unfolding st' scan_measure_def by simp
next
  case (Send i)
  with assms obtain r where i: "i < length (tasks st)" and w: "snd (tasks st ! i) = HasResult r"
    and st': "st' = st\<lparr>tasks := (tasks st)[i := (fst (tasks st ! i), Releasing)],
                      results_chan := results_chan st @ [r]\<rparr>"
    by (auto split: if_splits task_pc.splits)
  from sum_list_map_update[OF i, of "\<lambda>t. remaining (snd t)" "(fst (tasks st ! i), Releasing)"] w
  show ?thesis unfolding st' scan_measure_def by simp
next
  case (Release i)
  with assms have i: "i < length (tasks st)" and w: "snd (tasks st ! i) = Releasing"
    and st': "st' = st\<lparr>tasks := (tasks st)[i := (fst (tasks st ! i), Done)], sem := sem st - 1\<rparr>"
    by (auto split: if_splits)
  from sum_list_map_update[OF i, of "\<lambda>t. remaining (snd t)" "(fst (tasks st ! i), Done)"] w
  show ?thesis unfolding st' scan_measure_def by simp
next
  case Close_results
  with assms show ?thesis by (auto simp: scan_measure_def split: if_splits)
next
  case Publish
  with assms show ?thesis by (auto simp: scan_measure_def split: if_splits list.splits)
next
  case Finish
  with assms show ?thesis by (auto simp: scan_measure_def split: if_splits)
qed

lemma scan_measure_run:
  "scan_run sid tgt ls st = Some st' \<Longrightarrow> scan_measure st = length ls + scan_measure st'"
proof (induction ls arbitrary: st)
  case Nil
  then show ?case by simp
next
  case (Cons l ls)
  from Cons.prems obtain st1 where 1: "scan_step sid tgt l st = Some st1"
    and 2: "scan_run sid tgt ls st1 = Some st'"
    by (auto split: option.splits)
  from scan_measure_step[OF 1] Cons.IH[OF 2] show ?case by simp
qed

lemma scan_measure_init: "scan_measure (scanPorts_init ports) = 5 * length ports + 2"
  by (induction ports) (simp_all add: scan_measure_def scanPorts_init_def)

lemma sum_list_pos_ex:
  "0 < sum_list (map f xs) \<Longrightarrow> \<exists>i < length xs. 0 < (f (xs ! i) :: nat)"
proof (induction xs)
  case Nil
  then show ?case by simp
next
  case (Cons x xs)
  show ?case
  proof (cases "0 < f x")
    case True
    then show ?thesis by (intro exI[of _ 0]) simp
  next
    case False
    with Cons.prems have "0 < sum_list (map f xs)" by simp
    from Cons.IH[OF this] obtain i where "i < length xs" "0 < f (xs ! i)" by blast
    then show ?thesis by (intro exI[of _ "Suc i"]) simp
  qed
qed

lemma holding_can_move:
  assumes "i < length (tasks st)" "0 < slot (snd (tasks st ! i))" "results_chan st = []"
  shows "\<exists>l. scan_step sid tgt l st \<noteq> None"
proof (cases "snd (tasks st ! i)")
  case Dialing
  with assms(1) have "scan_step sid tgt (Probe i None) st \<noteq> None" by simp
  then show ?thesis by blast
next
  case (HasResult r)
  with assms(1,3) have "scan_step sid tgt (Send i) st \<noteq> None" by auto
  then show ?thesis by blast
next
  case Releasing
  with assms(1) have "scan_step sid tgt (Release i) st \<noteq> None" by simp
  then show ?thesis by blast
qed (use assms(2) in simp_all)

lemma scan_progress:
  assumes inv: "scan_inv ports st" and nc: "\<not> completed st"
  shows "\<exists>l. scan_step sid tgt l st \<noteq> None"
proof (cases "results_chan st")
  case (Cons r rest)
  with nc have "scan_step sid tgt Publish st \<noteq> None" by simp
  then show ?thesis by blast
next
  case Nil
  show ?thesis
  proof (cases "closed st")
    case True
    with Nil nc have "scan_step sid tgt Finish st \<noteq> None" by simp
    then show ?thesis by blast
  next
    case False
    show ?thesis
    proof (cases "list_all (\<lambda>t. snd t = Done) (tasks st)")
      case True
      with False have "scan_step sid tgt Close_results st \<noteq> None" by simp
      then show ?thesis by blast
    next
      case nd: False
      then obtain i where i: "i < length (tasks st)" and pc: "snd (tasks st ! i) \<noteq> Done"
        by (auto simp: list_all_length)
      show ?thesis
      proof (cases "0 < slot (snd (tasks st ! i))")
        case True
        from holding_can_move[OF i True Nil] show ?thesis .
      next
        case ns: False
        with pc have w: "snd (tasks st ! i) = Waiting" by (cases "snd (tasks st ! i)") simp_all
        show ?thesis
        proof (cases "sem st < maxWorkers")
          case True
          with i w have "scan_step sid tgt (Acquire i) st \<noteq> None" by simp
          then show ?thesis by blast
        next
          case False
          with inv have "0 < sum_list (map (\<lambda>t. slot (snd t)) (tasks st))"
            by (simp add: scan_inv_def maxWorkers_def)
          from sum_list_pos_ex[OF this] obtain j where
            "j < length (tasks st)" "0 < slot (snd (tasks st ! j))" by blast
          from holding_can_move[OF this Nil] show ?thesis .
        qed
      qed
    qed
  qed
qed

lemma all_done_emitted:
  "list_all (\<lambda>t. snd t = Done) ts \<Longrightarrow> sum_list (map emitted ts) = mset (map fst ts)"
  by (induction ts) auto

text \<open>
  Claim C8. A request with an empty port list is scanned with \<open>topPorts\<close>, which has 15
  ports. Every run of that scan has at most \<open>5 * 15 + 2\<close> steps, and a run that has
  not completed can always take a step, so the scan completes; and when it has, the
  published results are exactly one per port of \<open>topPorts\<close> (as a multiset: their order
  is the order of completion), 15 in number, each carrying the scan id and the target.
\<close>

theorem default_ports_one_result_each:
  assumes "scan_run sid tgt ls (scanPorts_init (handleScanRequest_ports [])) = Some st"
  shows "length ls \<le> 5 * length topPorts + 2
    \<and> (\<not> completed st \<longrightarrow> (\<exists>l. scan_step sid tgt l st \<noteq> None))
    \<and> (completed st \<longrightarrow>
          mset (map sr_Port (published st)) = mset topPorts
        \<and> length (published st) = length topPorts
        \<and> (\<forall>r \<in> set (published st). sr_ID r = sid \<and> sr_Target r = tgt))
    \<and> length topPorts = 15"
proof -
  have p: "handleScanRequest_ports [] = topPorts" by (simp add: handleScanRequest_ports_def)
  from assms have inv: "scan_inv topPorts st"
    unfolding p by (rule scan_inv_run[OF scan_inv_init])
  from assms have ids: "scan_ids sid tgt st"
    by (rule scan_ids_run[OF scan_ids_init])
  from scan_measure_run[OF assms] have 1: "length ls \<le> 5 * length topPorts + 2"
    by (simp add: p scan_measure_init)
  have 2: "\<exists>l. scan_step sid tgt l st \<noteq> None" if "\<not> completed st"
    using scan_progress[OF inv that] .
  have 3: "mset (map sr_Port (published st)) = mset topPorts
        \<and> length (published st) = length topPorts
        \<and> (\<forall>r \<in> set (published st). sr_ID r = sid \<and> sr_Target r = tgt)" if c: "completed st"
  proof -
    from inv c have d: "list_all (\<lambda>t. snd t = Done) (tasks st)" and e: "results_chan st = []"
      and f: "map fst (tasks st) = topPorts"
      and m: "mset (map sr_Port (published st @ results_chan st)) = sum_list (map emitted (tasks st))"
      by (auto simp: scan_inv_def)
    from m e all_done_emitted[OF d] f have ms: "mset (map sr_Port (published st)) = mset topPorts"
      by simp
    from ms have "size (mset (map sr_Port (published st))) = size (mset topPorts)" by simp
    then have l: "length (published st) = length topPorts" by simp
    from ids have "\<forall>r \<in> set (published st). sr_ID r = sid \<and> sr_Target r = tgt"
      by (simp add: scan_ids_def)
    with ms l show ?thesis by blast
  qed
  have 4: "length topPorts = 15" by (simp add: topPorts_def)
  from 1 2 3 4 show ?thesis by blast
qed

definition sequential :: "nat \<Rightarrow> scan_label list" where
  "sequential n = concat (map (\<lambda>i. [Acquire i, Probe i None, Send i, Release i, Publish]) [0..<n])
     @ [Close_results, Finish]"

lemma sequential_completes:
  "map_option completed
     (scan_run ''s1'' ''10.0.0.1'' (sequential 15) (scanPorts_init (handleScanRequest_ports [])))
   = Some True"
  by code_simp

theorem default_ports_one_result_each_witness:
  "\<exists>st. scan_run ''s1'' ''10.0.0.1'' (sequential 15) (scanPorts_init (handleScanRequest_ports [])) = Some st
     \<and> completed st
     \<and> length (sequential 15) = 5 * length topPorts + 2
     \<and> mset (map sr_Port (published st)) = mset topPorts
     \<and> length (published st) = 15"
proof -
  from sequential_completes obtain st where
    r: "scan_run ''s1'' ''10.0.0.1'' (sequential 15) (scanPorts_init (handleScanRequest_ports [])) = Some st"
    and c: "completed st" by auto
  have l: "length (sequential 15) = 5 * length topPorts + 2"
    by (simp add: sequential_def topPorts_def length_concat comp_def sum_list_triv)
  from default_ports_one_result_each[OF r] c l r show ?thesis
    by (intro exI[of _ st]) simp
qed

section \<open>Analyzer agent: the SSH version (claim C4)\<close>

lemma Split_nonempty: "Split s c \<noteq> []"
  by (subst Split.simps) simp

lemma hd_Split: "hd (Split s c) = takeWhile (\<lambda>x. x \<noteq> c) s"
proof (cases "c \<in> set s")
  case True
  then show ?thesis by (subst Split.simps) simp
next
  case False
  then have "takeWhile (\<lambda>x. x \<noteq> c) s = s" by (simp add: takeWhile_eq_all_conv) blast
  with False show ?thesis by (subst Split.simps) (simp del: takeWhile_eq_all_conv)
qed

lemma length_Split: "Suc 0 < length (Split s c) \<longleftrightarrow> c \<in> set s"
  using Split_nonempty[of "tl (dropWhile (\<lambda>x. x \<noteq> c) s)" c]
  by (subst Split.simps) (auto simp: Suc_lessI)

lemma Split_second:
  "c \<in> set s \<Longrightarrow> Split s c ! Suc 0 = takeWhile (\<lambda>x. x \<noteq> c) (tl (dropWhile (\<lambda>x. x \<noteq> c) s))"
  using Split_nonempty[of "tl (dropWhile (\<lambda>x. x \<noteq> c) s)" c]
    hd_Split[of "tl (dropWhile (\<lambda>x. x \<noteq> c) s)" c]
  by (subst Split.simps) (simp add: hd_conv_nth)

definition ssh_line :: string where
  "ssh_line = ''SSH-2.0-OpenSSH_8.9''"

definition port22 :: scanner_ScanResult where
  "port22 = \<lparr>sr_ID = ''s1'', sr_Target = ''10.0.0.1'', sr_Port = 22, IsOpen = True, sr_Error = []\<rparr>"

definition answers :: "string \<times> go_error option \<Rightarrow> probe_io" where
  "answers r = \<lparr>dial = None, write1 = None, read1 = r, write2 = None, read2 = ([], None),
     http_get = Inl (OtherError ''unused'')\<rparr>"

text \<open>
  Claim C4 as stated does not hold: the line \<open>SSH-2.0-OpenSSH_8.9\<close> has no space, so
  splitting it at spaces gives one part and no version is set. The service name is
  \<open>SSH\<close>, the version is empty, whether the line ends in CR LF, in LF, or at the end of
  the stream.
\<close>

theorem ssh_scenario_version_is_empty:
  "Service (detectService port22 (answers (ssh_line @ [CHR 0x0D, CHR 0x0A], None))) = ''SSH''
   \<and> Version (detectService port22 (answers (ssh_line @ [CHR 0x0D, CHR 0x0A], None))) = []
   \<and> Version (detectService port22 (answers (ssh_line @ [CHR 0x0D, CHR 0x0A], None))) \<noteq> ''8.9''
   \<and> Version (detectService port22 (answers (ssh_line @ [CHR 0x0A], None))) = []
   \<and> Version (detectService port22 (answers (ssh_line, Some EOF))) = []"
  by code_simp

text \<open>
  Claim C4, amended. When the detector probes port 22, connects and reads a line that
  contains \<open>SSH\<close>, it emits the service name \<open>SSH\<close>; the version is the text between the
  first space of the line and the next space or the end of what was read, provided the
  line contains \<open>OpenSSH\<close> and a space, and is empty otherwise.
\<close>

theorem ssh_version_is_token_after_first_space:
  assumes "sr_Port result = 22" and "dial io = None" and "\<not> real_error (snd (read1 io))"
    and "Contains (fst (read1 io)) ''SSH''"
  shows "Service (detectService result io) = ''SSH''
    \<and> Version (detectService result io) =
        (if Contains (fst (read1 io)) ''OpenSSH'' \<and> CHR '' '' \<in> set (fst (read1 io))
         then takeWhile (\<lambda>c. c \<noteq> CHR '' '')
                (tl (dropWhile (\<lambda>c. c \<noteq> CHR '' '') (fst (read1 io))))
         else [])"
  using assms
  by (simp add: detectService_def detectSSH_def Let_def length_Split Split_second
      split: option.splits)

theorem ssh_version_is_token_after_first_space_witness:
  "Service (detectService port22 (answers (ssh_line @ '' Ubuntu-3'' @ [CHR 0x0D, CHR 0x0A], None))) = ''SSH''
   \<and> Version (detectService port22 (answers (ssh_line @ '' Ubuntu-3'' @ [CHR 0x0D, CHR 0x0A], None)))
       = ''Ubuntu-3'' @ [CHR 0x0D, CHR 0x0A]
   \<and> Version (detectService port22 (answers (ssh_line @ [CHR 0x0D, CHR 0x0A], None))) = []"
proof -
  have c: "Contains (ssh_line @ s) ''SSH''" "Contains (ssh_line @ s) ''OpenSSH''" for s
    by (simp_all add: ssh_line_def HasPrefix_def)
  have a: "sr_Port port22 = 22" "dial (answers r) = None" "read1 (answers r) = r" for r
    by (simp_all add: port22_def answers_def)
  from ssh_version_is_token_after_first_space[of port22 "answers (ssh_line @ '' Ubuntu-3'' @ [CHR 0x0D, CHR 0x0A], None)"]
    ssh_version_is_token_after_first_space[of port22 "answers (ssh_line @ [CHR 0x0D, CHR 0x0A], None)"]
  show ?thesis
    by (simp add: a c real_error_def) (simp add: ssh_line_def)
qed

section \<open>Analyzer agent: I/O failures keep the registry name (claim C9)\<close>

definition specific_ports :: "int set" where
  "specific_ports = {22, 80, 8080, 443, 8443, 3306, 5432, 6379, 27017}"

text \<open>An I/O step of the handler for the port has failed: one of the answers that handler
  may consume is an error.\<close>

definition io_failed :: "int \<Rightarrow> probe_io \<Rightarrow> bool" where
  "io_failed port io \<longleftrightarrow>
     (if port = 22 \<or> port = 3306 then dial io \<noteq> None \<or> snd (read1 io) \<noteq> None
      else if port \<in> {80, 8080, 443, 8443} then isl (http_get io)
      else if port = 5432 \<or> port = 27017 then
        dial io \<noteq> None \<or> write1 io \<noteq> None \<or> snd (read1 io) \<noteq> None
      else if port = 6379 then
        dial io \<noteq> None \<or> write1 io \<noteq> None \<or> snd (read1 io) \<noteq> None
          \<or> write2 io \<noteq> None \<or> snd (read2 io) \<noteq> None
      else False)"

lemma registry_cases:
  assumes "serviceRegistry p = Some name"
  obtains "p = 22" "name = ''SSH''"
    | "p = 80" "name = ''HTTP''"
    | "p = 8080" "name = ''HTTP-Proxy''"
    | "p = 443" "name = ''HTTPS''"
    | "p = 8443" "name = ''HTTPS-Alt''"
    | "p = 3306" "name = ''MySQL''"
    | "p = 5432" "name = ''PostgreSQL''"
    | "p = 6379" "name = ''Redis''"
    | "p = 27017" "name = ''MongoDB''"
    | "p \<in> {21, 23, 25, 110, 143, 445, 1433, 3389, 5900}"
      "name \<in> {''FTP'', ''Telnet'', ''SMTP'', ''POP3'', ''IMAP'', ''SMB'', ''MSSQL'', ''RDP'', ''VNC''}"
  using assms unfolding serviceRegistry_def
  by (simp split: if_splits)

lemma guess_service_known:
  "s \<noteq> [] \<Longrightarrow> s \<noteq> ''Unknown'' \<Longrightarrow>
   guess_service b s \<noteq> [] \<and> guess_service b s \<noteq> ''Unknown''"
  by (simp add: guess_service_def)

lemma grabBanner_Service:
  assumes "Service info \<noteq> []" "Service info \<noteq> ''Unknown''"
  shows "Service (grabBanner io info) \<noteq> [] \<and> Service (grabBanner io info) \<noteq> ''Unknown''"
  using assms guess_service_known[OF assms]
  by (simp add: grabBanner_def Let_def split: option.splits)

lemma detectSSH_Service:
  "Service (detectSSH io info) = Service info \<or> Service (detectSSH io info) = ''SSH''"
  by (simp add: detectSSH_def Let_def split: option.splits)

lemma detectMySQL_Service:
  "Service (detectMySQL io info) = Service info \<or> Service (detectMySQL io info) = ''MySQL''"
  by (simp add: detectMySQL_def Let_def split: option.splits)

lemma detectPostgreSQL_Service:
  "Service (detectPostgreSQL io info) = Service info
   \<or> Service (detectPostgreSQL io info) = ''PostgreSQL''"
  by (simp add: detectPostgreSQL_def Let_def split: option.splits)

lemma detectRedis_Service:
  "Service (detectRedis io info) = Service info \<or> Service (detectRedis io info) = ''Redis''"
  by (simp add: detectRedis_def Let_def split: option.splits)

lemma detectMongoDB_Service:
  "Service (detectMongoDB io info) = Service info \<or> Service (detectMongoDB io info) = ''MongoDB''"
  by (simp add: detectMongoDB_def Let_def split: option.splits)

lemma detectHTTP_Service:
  "Service (detectHTTP io info) = (if isl (http_get io) then Service info else ''HTTP'')"
  by (simp add: detectHTTP_def http_banner_def Let_def split: sum.splits)

lemma detectHTTPS_Service:
  "Service (detectHTTPS io info) = (if isl (http_get io) then Service info else ''HTTPS'')"
  by (simp add: detectHTTPS_def http_banner_def Let_def split: sum.splits)

lemma grabBanner_no_data:
  "dial io \<noteq> None \<or> banner_bytes io = [] \<Longrightarrow> grabBanner io info = info"
  by (auto simp: grabBanner_def Let_def split: option.splits)

definition registered :: "scanner_ScanResult \<Rightarrow> string \<Rightarrow> ServiceInfo" where
  "registered result name =
     \<lparr>si_ScanID = sr_ID result, si_Target = sr_Target result, si_Port = sr_Port result,
      Service = name, Version = [], Banner = []\<rparr>"

lemma detectService_registered:
  assumes "serviceRegistry (sr_Port result) = Some name"
  shows "detectService result io =
     (let port = sr_Port result; serviceInfo = registered result name
      in if port = 22 then detectSSH io serviceInfo
         else if port = 80 \<or> port = 8080 then detectHTTP io serviceInfo
         else if port = 443 \<or> port = 8443 then detectHTTPS io serviceInfo
         else if port = 3306 then detectMySQL io serviceInfo
         else if port = 5432 then detectPostgreSQL io serviceInfo
         else if port = 6379 then detectRedis io serviceInfo
         else if port = 27017 then detectMongoDB io serviceInfo
         else grabBanner io serviceInfo)"
  using assms by (simp add: detectService_def registered_def Let_def)

text \<open>
  Claim C9. For an open port with an entry in \<open>serviceRegistry\<close>, the service name of the
  record handed to \<open>publishServiceInfo\<close> is never empty and never \<open>Unknown\<close>, whatever the
  network answers. When the port has a protocol-specific handler (22, 80, 8080, 443, 8443,
  3306, 5432, 6379, 27017) and any I/O step of that handler fails, the name is the one of
  the registry. For the other registry ports, handled by the generic banner grab, the name
  is the one of the registry when the connect fails or no byte is read.
\<close>

theorem io_failure_keeps_default_name:
  assumes "serviceRegistry (sr_Port result) = Some name"
  shows "Service (detectService result io) \<noteq> []
    \<and> Service (detectService result io) \<noteq> ''Unknown''
    \<and> (sr_Port result \<in> specific_ports \<and> io_failed (sr_Port result) io \<longrightarrow>
          Service (detectService result io) = name)
    \<and> (sr_Port result \<notin> specific_ports \<and> (dial io \<noteq> None \<or> banner_bytes io = []) \<longrightarrow>
          Service (detectService result io) = name)"
proof -
  let ?info = "registered result name"
  have s: "Service (registered r n) = n" for r n by (simp add: registered_def)
  note d = detectService_registered[OF assms, of io]
  from assms show ?thesis
  proof (cases rule: registry_cases)
    case 1
    with detectSSH_Service[of io ?info] show ?thesis
      by (auto simp: d s specific_ports_def)
  next
    case 2
    then show ?thesis
      by (auto simp: d s specific_ports_def detectHTTP_Service io_failed_def)
  next
    case 3
    then show ?thesis
      by (auto simp: d s specific_ports_def detectHTTP_Service io_failed_def)
  next
    case 4
    then show ?thesis
      by (auto simp: d s specific_ports_def detectHTTPS_Service io_failed_def)
  next
    case 5
    then show ?thesis
      by (auto simp: d s specific_ports_def detectHTTPS_Service io_failed_def)
  next
    case 6
    with detectMySQL_Service[of io ?info] show ?thesis
      by (auto simp: d s specific_ports_def)
  next
    case 7
    with detectPostgreSQL_Service[of io ?info] show ?thesis
      by (auto simp: d s specific_ports_def)
  next
    case 8
    with detectRedis_Service[of io ?info] show ?thesis
      by (auto simp: d s specific_ports_def)
  next
    case 9
    with detectMongoDB_Service[of io ?info] show ?thesis
      by (auto simp: d s specific_ports_def)
  next
    case 10
    from 10(2) have n: "Service ?info \<noteq> []" "Service ?info \<noteq> ''Unknown''"
      by (auto simp: s)
    from 10(1) have g: "detectService result io = grabBanner io ?info"
      by (auto simp: d)
    from 10(1) have ns: "sr_Port result \<notin> specific_ports"
      by (auto simp: specific_ports_def)
    from grabBanner_Service[OF n, of io] grabBanner_no_data[of io ?info] show ?thesis
      by (auto simp: g s ns)
  qed
qed

definition open_port :: "int \<Rightarrow> scanner_ScanResult" where
  "open_port p = \<lparr>sr_ID = ''s1'', sr_Target = ''10.0.0.1'', sr_Port = p, IsOpen = True, sr_Error = []\<rparr>"

definition all_fail :: probe_io where
  "all_fail = \<lparr>dial = Some (NetError True ''i/o timeout''), write1 = None, read1 = ([], None),
     write2 = None, read2 = ([], None), http_get = Inl (NetError True ''i/o timeout'')\<rparr>"

definition read_fails :: probe_io where
  "read_fails = \<lparr>dial = None, write1 = None, read1 = ([], Some (NetError True ''i/o timeout'')),
     write2 = None, read2 = ([], Some (NetError True ''i/o timeout'')),
     http_get = Inl (NetError True ''i/o timeout'')\<rparr>"

lemma registry_values:
  "serviceRegistry 8080 = Some ''HTTP-Proxy''" "serviceRegistry 22 = Some ''SSH''"
  "serviceRegistry 23 = Some ''Telnet''"
  by (simp_all add: serviceRegistry_def)

theorem io_failure_keeps_default_name_witness:
  "io_failed 8080 all_fail \<and> Service (detectService (open_port 8080) all_fail) = ''HTTP-Proxy''
   \<and> io_failed 22 read_fails \<and> Service (detectService (open_port 22) read_fails) = ''SSH''
   \<and> banner_bytes read_fails = [] \<and> Service (detectService (open_port 23) read_fails) = ''Telnet''"
proof -
  have p: "sr_Port (open_port q) = q" for q by (simp add: open_port_def)
  have f: "io_failed 8080 all_fail" "io_failed 22 read_fails" "banner_bytes read_fails = []"
    by (simp_all add: io_failed_def all_fail_def read_fails_def banner_bytes_def)
  have m: "(8080::int) \<in> specific_ports" "(22::int) \<in> specific_ports" "(23::int) \<notin> specific_ports"
    by (simp_all add: specific_ports_def)
  from io_failure_keeps_default_name[of "open_port 8080" "''HTTP-Proxy''" all_fail]
    io_failure_keeps_default_name[of "open_port 22" "''SSH''" read_fails]
    io_failure_keeps_default_name[of "open_port 23" "''Telnet''" read_fails]
  show ?thesis by (simp add: p f m registry_values)
qed

end
